theory Spec2Isabelle
  imports Main "HOL-Library.Sublist"
begin

section \<open>Strings\<close>

text \<open>
  A JavaScript string is modelled as a \<^typ>\<open>string\<close>: one \<^typ>\<open>char\<close> per code unit, so the
  model covers the code units U+0000 to U+00FF. The helpers below are the built-ins the
  source calls (\<^verbatim>\<open>trim\<close>, \<^verbatim>\<open>toLowerCase\<close>, \<^verbatim>\<open>startsWith\<close>,
  \<^verbatim>\<open>replace\<close> with a string pattern), written out for that range.
\<close>

definition is_ws :: "char \<Rightarrow> bool" where
  \<comment> \<open>ECMAScript WhiteSpace and LineTerminator below U+0100: TAB, LF, VT, FF, CR, SP, NBSP.
      \<^verbatim>\<open>trim\<close> and the regular-expression class \<^verbatim>\<open>\s\<close> use the same set.\<close>
  "is_ws c = (c \<in> {CHR 0x09, CHR 0x0A, CHR 0x0B, CHR 0x0C, CHR 0x0D, CHR 0x20, CHR 0xA0})"

definition trimStart :: "string \<Rightarrow> string" where
  "trimStart s = dropWhile is_ws s"

definition trimEnd :: "string \<Rightarrow> string" where
  "trimEnd s = rev (dropWhile is_ws (rev s))"

definition trim :: "string \<Rightarrow> string" where
  "trim s = trimEnd (trimStart s)"

definition ascii_upper_letters :: string where
  "ascii_upper_letters = ''ABCDEFGHIJKLMNOPQRSTUVWXYZ''"

definition ascii_lower_letters :: string where
  "ascii_lower_letters = ''abcdefghijklmnopqrstuvwxyz''"

definition latin1_upper_letters :: string where
  \<comment> \<open>U+00C0 to U+00DE without the multiplication sign U+00D7\<close>
  "latin1_upper_letters =
     [CHR 0xC0, CHR 0xC1, CHR 0xC2, CHR 0xC3, CHR 0xC4, CHR 0xC5, CHR 0xC6, CHR 0xC7,
      CHR 0xC8, CHR 0xC9, CHR 0xCA, CHR 0xCB, CHR 0xCC, CHR 0xCD, CHR 0xCE, CHR 0xCF,
      CHR 0xD0, CHR 0xD1, CHR 0xD2, CHR 0xD3, CHR 0xD4, CHR 0xD5, CHR 0xD6,
      CHR 0xD8, CHR 0xD9, CHR 0xDA, CHR 0xDB, CHR 0xDC, CHR 0xDD, CHR 0xDE]"

definition latin1_lower_letters :: string where
  \<comment> \<open>U+00E0 to U+00FE without the division sign U+00F7\<close>
  "latin1_lower_letters =
     [CHR 0xE0, CHR 0xE1, CHR 0xE2, CHR 0xE3, CHR 0xE4, CHR 0xE5, CHR 0xE6, CHR 0xE7,
      CHR 0xE8, CHR 0xE9, CHR 0xEA, CHR 0xEB, CHR 0xEC, CHR 0xED, CHR 0xEE, CHR 0xEF,
      CHR 0xF0, CHR 0xF1, CHR 0xF2, CHR 0xF3, CHR 0xF4, CHR 0xF5, CHR 0xF6,
      CHR 0xF8, CHR 0xF9, CHR 0xFA, CHR 0xFB, CHR 0xFC, CHR 0xFD, CHR 0xFE]"

definition ascii_lower :: "char \<Rightarrow> char" where
  "ascii_lower c =
     (case map_of (zip ascii_upper_letters ascii_lower_letters) c of Some d \<Rightarrow> d | None \<Rightarrow> c)"

definition lower_char :: "char \<Rightarrow> char" where
  "lower_char c =
     (case map_of (zip (ascii_upper_letters @ latin1_upper_letters)
                       (ascii_lower_letters @ latin1_lower_letters)) c of
        Some d \<Rightarrow> d
      | None \<Rightarrow> c)"

definition toLowerCase :: "string \<Rightarrow> string" where
  "toLowerCase s = map lower_char s"

definition startsWith :: "string \<Rightarrow> string \<Rightarrow> bool" where
  "startsWith s p = prefix p s"

fun replace_first :: "string \<Rightarrow> string \<Rightarrow> string \<Rightarrow> string" where
  \<comment> \<open>\<^verbatim>\<open>s.replace(pat, rep)\<close> for a string pattern: the first occurrence only\<close>
  "replace_first pat rep [] = (if pat = [] then rep else [])"
| "replace_first pat rep (c # cs) =
     (if prefix pat (c # cs) then rep @ drop (length pat) (c # cs)
      else c # replace_first pat rep cs)"

section \<open>Model selection: \<^verbatim>\<open>getModel\<close>\<close>

text \<open>
  \<^verbatim>\<open>loadEnv\<close> lives in \<^verbatim>\<open>config/env.js\<close>; the two variables \<^verbatim>\<open>getModel\<close> reads from
  its result are the input here. The module-level \<^verbatim>\<open>cachedModel\<close> is passed in and
  returned. A selected model records the provider factory that built it, the API key it
  was given and the model name.
\<close>

record env_vars =
  MODEL_PROVIDER :: string
  MODEL_API_KEY :: string

datatype language_model =
    OpenAIModel string string
  | AnthropicModel string string
  | GoogleModel string string
  | XaiModel string string

datatype model_error = UnsupportedModelProvider string

definition getModel ::
  "language_model option \<Rightarrow> env_vars \<Rightarrow> (model_error + language_model) \<times> language_model option"
where
  "getModel cachedModel env =
     (case cachedModel of
        Some m \<Rightarrow> (Inr m, cachedModel)
      | None \<Rightarrow>
          (let p = MODEL_PROVIDER env; k = MODEL_API_KEY env in
           if startsWith p ''openai/'' then
             (let m = OpenAIModel k (replace_first ''openai/'' [] p) in (Inr m, Some m))
           else if startsWith p ''anthropic/'' then
             (let m = AnthropicModel k (replace_first ''anthropic/'' [] p) in (Inr m, Some m))
           else if startsWith p ''google/'' then
             (let m = GoogleModel k (replace_first ''google/'' [] p) in (Inr m, Some m))
           else if startsWith p ''xai/'' then
             (let m = XaiModel k (replace_first ''xai/'' [] p) in (Inr m, Some m))
           else (Inl (UnsupportedModelProvider p), None)))"

definition recognized_prefixes :: "string list" where
  "recognized_prefixes = [''openai/'', ''anthropic/'', ''google/'', ''xai/'']"

fun cache_after :: "nat \<Rightarrow> env_vars \<Rightarrow> language_model option" where
  \<comment> \<open>\<^verbatim>\<open>cachedModel\<close> after a number of calls of \<^verbatim>\<open>getModel\<close> under one configuration;
      the module starts with \<^verbatim>\<open>let cachedModel = null\<close>\<close>
  "cache_after 0 env = None"
| "cache_after (Suc n) env = snd (getModel (cache_after n env) env)"

datatype stage =
    ModelConfiguration
  | SessionContext
  | Authentication
  | ActionDiscovery
  | Generation

fun browser_or_session_work :: "stage \<Rightarrow> bool" where
  "browser_or_session_work ModelConfiguration = False"
| "browser_or_session_work SessionContext = True"
| "browser_or_session_work Authentication = True"
| "browser_or_session_work ActionDiscovery = True"
| "browser_or_session_work Generation = False"

definition pipeline_stages :: "bool \<Rightarrow> stage list" where
  "pipeline_stages skipAuth =
     SessionContext # (if skipAuth then [] else [Authentication]) @ [ActionDiscovery, Generation]"

definition pipeline_coordinator ::
  "env_vars \<Rightarrow> bool \<Rightarrow> stage list \<times> (model_error + language_model)"
where
  \<comment> \<open>Modelled from the spec: the Pipeline Coordinator (\<^verbatim>\<open>createMCPServer\<close> in
      \<^verbatim>\<open>commands/create\<close>, not among the sources). The provider configuration is resolved at
      startup, on the module's empty cache, and an unrecognized provider is fatal there;
      otherwise the coordinator starts, in this order, the Session Context Store, the
      Authentication Orchestrator (bypassed by \<^verbatim>\<open>skipAuth\<close>), the Action Discoverer and the
      generator. The list holds the stages the run starts; how a later stage ends is not
      part of this model.\<close>
  "pipeline_coordinator env skipAuth =
     (case fst (getModel (cache_after 0 env) env) of
        Inl e \<Rightarrow> ([ModelConfiguration], Inl e)
      | Inr m \<Rightarrow> (ModelConfiguration # pipeline_stages skipAuth, Inr m))"

section \<open>Authentication analysis: \<^verbatim>\<open>analyzeAuthenticationState\<close>\<close>

text \<open>
  \<^verbatim>\<open>AuthAnalysisSchema\<close>: one required field, the others optional (absent is \<open>None\<close>).
\<close>

datatype strategy = Autofill | Manual | Passwordless | Unknown

record mfa_info =
  mfa_required :: bool
  mfa_description :: "string option"

record AuthAnalysis =
  requiresAuth :: bool
  loginButton :: "string option"
  summary :: "string option"
  canAutofill :: "bool option"
  recommendedStrategy :: "strategy option"
  steps :: "string list option"
  blockers :: "string list option"
  mfa :: "mfa_info option"

text \<open>
  What \<^verbatim>\<open>stagehand.extract(instruction, AuthAnalysisSchema)\<close> does is outside the
  repository: it resolves to an object of the schema, or it rejects, with an \<^verbatim>\<open>Error\<close>
  carrying a message (a failed schema validation is one of these) or with some other
  thrown value. The two other calls of the function, \<^verbatim>\<open>setActivePage\<close> before the
  \<^verbatim>\<open>try\<close> block and \<^verbatim>\<open>page.url()\<close> inside the \<^verbatim>\<open>catch\<close> block, are accessors of the
  browser context and are taken to return.
\<close>

datatype extract_outcome =
    Extracted AuthAnalysis
  | ExtractError string
  | ExtractThrown

fun matches_here :: "string \<Rightarrow> string \<Rightarrow> bool" where
  \<comment> \<open>a literal of the pattern matches at the start of the subject, ignoring case: with the
      \<^verbatim>\<open>i\<close> flag two code units match when their case-folded forms coincide, and no
      code unit outside ASCII folds onto an ASCII one\<close>
  "matches_here [] s = True"
| "matches_here (p # ps) [] = False"
| "matches_here (p # ps) (c # cs) = (ascii_lower c = ascii_lower p \<and> matches_here ps cs)"

fun regex_test :: "string list \<Rightarrow> string \<Rightarrow> bool" where
  \<comment> \<open>\<^verbatim>\<open>/a1|a2|.../i.test(s)\<close> for literal alternatives: some alternative matches at
      some position\<close>
  "regex_test alts [] = list_ex (\<lambda>a. matches_here a []) alts"
| "regex_test alts (c # cs) =
     (list_ex (\<lambda>a. matches_here a (c # cs)) alts \<or> regex_test alts cs)"

definition auth_keywords :: "string list" where
  "auth_keywords = [''login'', ''signin'', ''auth'', ''sign-in'', ''account'']"

definition analyzeAuthenticationState :: "extract_outcome \<Rightarrow> string \<Rightarrow> AuthAnalysis" where
  \<comment> \<open>the second argument is \<^verbatim>\<open>page.url()\<close>\<close>
  "analyzeAuthenticationState ex url =
     (case ex of
        Extracted result \<Rightarrow> result
      | ExtractError message \<Rightarrow>
          \<lparr>requiresAuth = regex_test auth_keywords url, loginButton = None,
           summary = Some (''Heuristic result after extract error: '' @ message),
           canAutofill = None, recommendedStrategy = None, steps = None, blockers = None,
           mfa = None\<rparr>
      | ExtractThrown \<Rightarrow>
          \<lparr>requiresAuth = regex_test auth_keywords url, loginButton = None,
           summary = Some ''Heuristic result after extract error.'',
           canAutofill = None, recommendedStrategy = None, steps = None, blockers = None,
           mfa = None\<rparr>)"

definition mentions_keyword :: "string \<Rightarrow> bool" where
  \<comment> \<open>the specification's reading of the heuristic: some stretch of the URL is one of the
      keywords up to letter case\<close>
  "mentions_keyword url =
     (\<exists>k \<in> set auth_keywords. \<exists>w. sublist w url \<and> map ascii_lower w = k)"

section \<open>Authentication orchestrator: \<^verbatim>\<open>authenticateToWebsite\<close>\<close>

text \<open>
  The function is straight-line code: every call into the browser, the analyzer, the
  vault or the terminal is made at most once per call site. The outside world is therefore
  a record that says, for each call site, what the call answers if it is reached. The
  function returns the events it caused, in order, and either the error it threw or the
  \<^verbatim>\<open>return\<close> statement it left through (the source returns \<^verbatim>\<open>void\<close> at each).
  Of the console output, the messages that mark a branch are events; the purely
  informational ones (the report of the first analysis among them) are not. A wait for
  the page to settle never fails the run: its rejection is swallowed by the source.
\<close>

record credentials =
  username :: string
  password :: string

datatype analysis_site = FirstAnalysis | AfterClick | AfterAutofill | AfterManual

datatype goto_site = FirstVisit | SkipReturn

datatype act_site = ClickLogin | TypeUsername | TypePassword | SubmitLogin

record world =
  active_page :: bool
    \<comment> \<open>\<^verbatim>\<open>context.awaitActivePage(10_000)\<close> resolves\<close>
  goto_ok :: "goto_site \<Rightarrow> bool"
    \<comment> \<open>\<^verbatim>\<open>activePage.goto\<close> resolves\<close>
  extract_at :: "analysis_site \<Rightarrow> extract_outcome"
  url_at :: "analysis_site \<Rightarrow> string"
  vault :: "credentials option"
    \<comment> \<open>Modelled from the spec: \<^verbatim>\<open>lookupCredentialsIn1Password\<close> (module \<^verbatim>\<open>1password\<close>,
        not among the sources) resolves to the stored credentials or to their absence and
        never raises.\<close>
  act_ok :: "act_site \<Rightarrow> bool"
    \<comment> \<open>\<^verbatim>\<open>stagehand.act\<close> resolves\<close>
  session_id :: "string option"
    \<comment> \<open>\<^verbatim>\<open>stagehand.browserbaseSessionId\<close>, passed as it is to \<^verbatim>\<open>openDebuggerUrl\<close>\<close>
  debugger_ok :: bool
    \<comment> \<open>\<^verbatim>\<open>openDebuggerUrl\<close> resolves\<close>
  user_input :: string
    \<comment> \<open>the line \<^verbatim>\<open>waitForUserInput\<close> resolves to\<close>

datatype notice =
    NoAuthenticationRequired
  | ClickingLoginButton string
  | ClickFailed
  | AttemptingAutomaticLogin
  | AutomaticLoginSuccessful
  | AutomaticLoginRejected
  | AutomaticLoginFailed
  | DebugUrl string
  | PressEnterOrSkip
  | SkippingAuthentication
  | AuthenticationConfirmed

datatype event =
    AwaitActivePage
  | Goto string
  | Analyze
  | LookupCredentials string
  | Act string
  | WaitForLoadState nat
  | OpenDebugger "string option"
  | WaitForUserInput
  | Log notice

datatype auth_error =
    NoActivePage
  | NavigationFailed
  | NoActiveSession
  | DebuggerFailed
  | AuthenticationIncomplete

datatype auth_exit = NoLoginNeeded | AutoLoginDone | AuthenticationSkipped | ManualLoginDone

type_synonym run = "event list \<times> (auth_error + auth_exit)"

definition emit :: "event list \<Rightarrow> run \<Rightarrow> run" where
  "emit evs r = (evs @ fst r, snd r)"

definition analyze :: "world \<Rightarrow> analysis_site \<Rightarrow> AuthAnalysis" where
  "analyze W site = analyzeAuthenticationState (extract_at W site) (url_at W site)"

definition getDebugUrl :: "world \<Rightarrow> auth_error + string" where
  "getDebugUrl W =
     (case session_id W of
        None \<Rightarrow> Inl NoActiveSession
      | Some sessionId \<Rightarrow>
          if sessionId = [] then Inl NoActiveSession
          else Inr (''https://browserbase.com/sessions/'' @ sessionId))"

definition manual_login :: "world \<Rightarrow> string \<Rightarrow> run" where
  \<comment> \<open>from the debug URL to the end of the function\<close>
  "manual_login W url =
     (case getDebugUrl W of
        Inl e \<Rightarrow> ([], Inl e)
      | Inr debugUrl \<Rightarrow>
          emit [Log (DebugUrl debugUrl), OpenDebugger (session_id W)]
            (if \<not> debugger_ok W then ([], Inl DebuggerFailed)
             else emit [Log PressEnterOrSkip, WaitForUserInput]
               (if trim (toLowerCase (user_input W)) = ''skip'' then
                  emit [Log SkippingAuthentication, Goto url]
                    (if goto_ok W SkipReturn then ([], Inr AuthenticationSkipped)
                     else ([], Inl NavigationFailed))
                else
                  emit [Analyze]
                    (if requiresAuth (analyze W AfterManual)
                     then ([], Inl AuthenticationIncomplete)
                     else ([Log AuthenticationConfirmed], Inr ManualLoginDone)))))"

definition automatic_login :: "world \<Rightarrow> string \<Rightarrow> AuthAnalysis \<Rightarrow> run" where
  \<comment> \<open>from the autofill attempt to the end of the function; the third argument is the
      analysis in force after the click step\<close>
  "automatic_login W url analysis =
     (case vault W of
        None \<Rightarrow> manual_login W url
      | Some creds \<Rightarrow>
          if canAutofill analysis \<noteq> Some True then manual_login W url
          else
            emit [Log AttemptingAutomaticLogin,
                  Act (''Type '' @ [CHR 0x22] @ username creds @ [CHR 0x22]
                         @ '' into the username or email field'')]
              (if \<not> act_ok W TypeUsername
               then emit [Log AutomaticLoginFailed] (manual_login W url)
               else emit [Act (''Type '' @ [CHR 0x22] @ password creds @ [CHR 0x22]
                                 @ '' into the password field'')]
                 (if \<not> act_ok W TypePassword
                  then emit [Log AutomaticLoginFailed] (manual_login W url)
                  else emit [Act ''Click the login or sign in button'']
                    (if \<not> act_ok W SubmitLogin
                     then emit [Log AutomaticLoginFailed] (manual_login W url)
                     else emit [WaitForLoadState 10000, Analyze]
                       (if \<not> requiresAuth (analyze W AfterAutofill)
                        then ([Log AutomaticLoginSuccessful], Inr AutoLoginDone)
                        else emit [Log AutomaticLoginRejected] (manual_login W url))))))"

definition click_login :: "world \<Rightarrow> AuthAnalysis \<Rightarrow> event list \<times> AuthAnalysis" where
  \<comment> \<open>the click step: its events and the analysis in force after it\<close>
  "click_login W analysis =
     (case loginButton analysis of
        None \<Rightarrow> ([], analysis)
      | Some button \<Rightarrow>
          if button = [] then ([], analysis)
          else if act_ok W ClickLogin
          then ([Log (ClickingLoginButton button), Act button, WaitForLoadState 5000, Analyze],
                analyze W AfterClick)
          else ([Log (ClickingLoginButton button), Act button, Log ClickFailed], analysis))"

definition authenticateToWebsite :: "world \<Rightarrow> string \<Rightarrow> string \<Rightarrow> run" where
  "authenticateToWebsite W url domain =
     emit [AwaitActivePage]
       (if \<not> active_page W then ([], Inl NoActivePage)
        else emit [Goto url]
          (if \<not> goto_ok W FirstVisit then ([], Inl NavigationFailed)
           else emit [Analyze]
             (if \<not> requiresAuth (analyze W FirstAnalysis)
              then ([Log NoAuthenticationRequired], Inr NoLoginNeeded)
              else emit [LookupCredentials domain]
                (case click_login W (analyze W FirstAnalysis) of
                   (clicks, analysis) \<Rightarrow> emit clicks (automatic_login W url analysis)))))"

definition is_skip_input :: "string \<Rightarrow> bool" where
  \<comment> \<open>the specification's reading: \<^verbatim>\<open>skip\<close> in any letter case, white space around it\<close>
  "is_skip_input s =
     (\<exists>pre w post. s = pre @ w @ post \<and> list_all is_ws pre \<and> list_all is_ws post
        \<and> map ascii_lower w = ''skip'')"

fun events_after :: "event \<Rightarrow> event list \<Rightarrow> event list" where
  \<comment> \<open>the events that follow the first occurrence of an event\<close>
  "events_after e [] = []"
| "events_after e (x # xs) = (if x = e then xs else events_after e xs)"

text \<open>Example worlds and analyses, for evaluating runs.\<close>

definition analysis_of :: "bool \<Rightarrow> string option \<Rightarrow> bool option \<Rightarrow> AuthAnalysis" where
  "analysis_of r b c =
     \<lparr>requiresAuth = r, loginButton = b, summary = None, canAutofill = c,
      recommendedStrategy = None, steps = None, blockers = None, mfa = None\<rparr>"

definition open_site :: world where
  \<comment> \<open>a site whose first analysis reports that no login is needed\<close>
  "open_site =
     \<lparr>active_page = True, goto_ok = (\<lambda>site. True),
      extract_at = (\<lambda>site. Extracted (analysis_of False None None)),
      url_at = (\<lambda>site. ''https://example.com/''),
      vault = None, act_ok = (\<lambda>site. True), session_id = Some ''session-1'',
      debugger_ok = True, user_input = []\<rparr>"

definition gated_site :: "bool \<Rightarrow> string \<Rightarrow> bool \<Rightarrow> world" where
  \<comment> \<open>a site that asks for login behind a sign-in button, without stored credentials;
      the arguments: whether the click succeeds, the operator's line, whether the analysis
      after the manual step still asks for login\<close>
  "gated_site click line still =
     \<lparr>active_page = True, goto_ok = (\<lambda>site. True),
      extract_at = (\<lambda>site. case site of
         AfterManual \<Rightarrow> Extracted (analysis_of still None None)
       | _ \<Rightarrow> Extracted (analysis_of True (Some ''Click the Sign In button'') None)),
      url_at = (\<lambda>site. ''https://example.com/''),
      vault = None, act_ok = (\<lambda>site. click), session_id = Some ''session-1'',
      debugger_ok = True, user_input = line\<rparr>"

section \<open>Action discovery: the schemas\<close>

text \<open>
  A parsed JSON value. A number keeps its literal: no schema of the repository looks at a
  numeric value. An object is the list of its properties; \<^verbatim>\<open>undefined\<close> (a missing
  property) is \<open>None\<close> where a value is looked up.
\<close>

datatype json =
    JNull
  | JBool bool
  | JNumber string
  | JString string
  | JArray "json list"
  | JObject "(string \<times> json) list"

text \<open>
  What a Zod schema answers: the parsed value, or the issues, each with the path of the
  offending value. An object schema and an array schema report the issues of all their
  parts, in order.
\<close>

datatype segment = Key string | Index nat

type_synonym path = "segment list"

type_synonym 'a parsed = "path list + 'a"

definition both :: "'a parsed \<Rightarrow> 'b parsed \<Rightarrow> ('a \<times> 'b) parsed" where
  "both a b =
     (case a of
        Inr x \<Rightarrow> (case b of Inr y \<Rightarrow> Inr (x, y) | Inl f \<Rightarrow> Inl f)
      | Inl e \<Rightarrow> (case b of Inr y \<Rightarrow> Inl e | Inl f \<Rightarrow> Inl (e @ f)))"

fun all_of :: "'a parsed list \<Rightarrow> 'a list parsed" where
  "all_of [] = Inr []"
| "all_of (r # rs) =
     (case both r (all_of rs) of Inl e \<Rightarrow> Inl e | Inr (x, xs) \<Rightarrow> Inr (x # xs))"

definition z_string :: "path \<Rightarrow> json option \<Rightarrow> string parsed" where
  "z_string p v = (case v of Some (JString s) \<Rightarrow> Inr s | _ \<Rightarrow> Inl [p])"

definition z_boolean :: "path \<Rightarrow> json option \<Rightarrow> bool parsed" where
  "z_boolean p v = (case v of Some (JBool b) \<Rightarrow> Inr b | _ \<Rightarrow> Inl [p])"

definition z_optional ::
  "(path \<Rightarrow> json option \<Rightarrow> 'a parsed) \<Rightarrow> path \<Rightarrow> json option \<Rightarrow> 'a option parsed"
where
  "z_optional schema p v =
     (case v of
        None \<Rightarrow> Inr None
      | Some j \<Rightarrow> (case schema p v of Inl e \<Rightarrow> Inl e | Inr x \<Rightarrow> Inr (Some x)))"

definition z_array ::
  "(path \<Rightarrow> json option \<Rightarrow> 'a parsed) \<Rightarrow> path \<Rightarrow> json option \<Rightarrow> 'a list parsed"
where
  "z_array schema p v =
     (case v of
        Some (JArray items) \<Rightarrow>
          all_of (map (\<lambda>(i, item). schema (p @ [Index i]) (Some item)) (enumerate 0 items))
      | _ \<Rightarrow> Inl [p])"

definition z_record_any :: "path \<Rightarrow> json option \<Rightarrow> (string \<times> json) list parsed" where
  "z_record_any p v = (case v of Some (JObject props) \<Rightarrow> Inr props | _ \<Rightarrow> Inl [p])"

datatype parameter_type = StringType | NumberType | BooleanType

definition z_parameter_type :: "path \<Rightarrow> json option \<Rightarrow> parameter_type parsed" where
  \<comment> \<open>\<^verbatim>\<open>z.enum(["string", "number", "boolean"])\<close>\<close>
  "z_parameter_type p v =
     (case v of
        Some (JString s) \<Rightarrow>
          if s = ''string'' then Inr StringType
          else if s = ''number'' then Inr NumberType
          else if s = ''boolean'' then Inr BooleanType
          else Inl [p]
      | _ \<Rightarrow> Inl [p])"

record parameter =
  parameter_name :: string
  parameter_type :: parameter_type
  parameter_description :: string
  parameter_required :: "bool option"

record DiscoveredAction =
  action_name :: string
  action_description :: string
  action_steps :: "string list"
  action_parameters :: "parameter list option"
  action_extractionSchema :: "(string \<times> json) list option"

record DiscoveredActionsResponse =
  actions :: "DiscoveredAction list"

definition ParameterSchema :: "path \<Rightarrow> json option \<Rightarrow> parameter parsed" where
  \<comment> \<open>the object schema inside \<^verbatim>\<open>parameters\<close>\<close>
  "ParameterSchema p v =
     (case v of
        Some (JObject props) \<Rightarrow>
          (case both (z_string (p @ [Key ''name'']) (map_of props ''name''))
                 (both (z_parameter_type (p @ [Key ''type'']) (map_of props ''type''))
                 (both (z_string (p @ [Key ''description'']) (map_of props ''description''))
                       (z_optional z_boolean (p @ [Key ''required''])
                          (map_of props ''required'')))) of
             Inl e \<Rightarrow> Inl e
           | Inr (n, t, d, r) \<Rightarrow>
               Inr \<lparr>parameter_name = n, parameter_type = t, parameter_description = d,
                    parameter_required = r\<rparr>)
      | _ \<Rightarrow> Inl [p])"

definition DiscoveredActionSchema :: "path \<Rightarrow> json option \<Rightarrow> DiscoveredAction parsed" where
  "DiscoveredActionSchema p v =
     (case v of
        Some (JObject props) \<Rightarrow>
          (case both (z_string (p @ [Key ''name'']) (map_of props ''name''))
                 (both (z_string (p @ [Key ''description'']) (map_of props ''description''))
                 (both (z_array z_string (p @ [Key ''steps'']) (map_of props ''steps''))
                 (both (z_optional (z_array ParameterSchema) (p @ [Key ''parameters''])
                          (map_of props ''parameters''))
                       (z_optional z_record_any (p @ [Key ''extractionSchema''])
                          (map_of props ''extractionSchema''))))) of
             Inl e \<Rightarrow> Inl e
           | Inr (n, d, s, ps, x) \<Rightarrow>
               Inr \<lparr>action_name = n, action_description = d, action_steps = s,
                    action_parameters = ps, action_extractionSchema = x\<rparr>)
      | _ \<Rightarrow> Inl [p])"

definition DiscoveredActionsResponseSchema ::
  "path \<Rightarrow> json option \<Rightarrow> DiscoveredActionsResponse parsed"
where
  "DiscoveredActionsResponseSchema p v =
     (case v of
        Some (JObject props) \<Rightarrow>
          (case z_array DiscoveredActionSchema (p @ [Key ''actions'']) (map_of props ''actions'') of
             Inl e \<Rightarrow> Inl e
           | Inr as \<Rightarrow> Inr \<lparr>actions = as\<rparr>)
      | _ \<Rightarrow> Inl [p])"

section \<open>Action discovery: \<^verbatim>\<open>discoverActions\<close>\<close>

definition fence :: string where
  \<comment> \<open>three grave accents\<close>
  "fence = [CHR 0x60, CHR 0x60, CHR 0x60]"

definition strip_json_fence :: "string \<Rightarrow> string" where
  \<comment> \<open>\<^verbatim>\<open>replace(/^```json\s*/i, "")\<close>\<close>
  "strip_json_fence s =
     (if matches_here (fence @ ''json'') s
      then dropWhile is_ws (drop (length (fence @ ''json'')) s)
      else s)"

definition strip_open_fence :: "string \<Rightarrow> string" where
  \<comment> \<open>\<^verbatim>\<open>replace(/^```\s*/, "")\<close>\<close>
  "strip_open_fence s =
     (if prefix fence s then dropWhile is_ws (drop (length fence) s) else s)"

definition strip_close_fence :: "string \<Rightarrow> string" where
  \<comment> \<open>\<^verbatim>\<open>replace(/\s*```$/, "")\<close>: without the \<^verbatim>\<open>m\<close> flag the dollar matches at the end of
      the input only, and the leftmost match takes all the white space before the marker\<close>
  "strip_close_fence s =
     (if suffix fence s then trimEnd (take (length s - length fence) s) else s)"

definition clean_response :: "string \<Rightarrow> string" where
  \<comment> \<open>the four statements that turn \<^verbatim>\<open>responseMessage\<close> into \<^verbatim>\<open>jsonString\<close>\<close>
  "clean_response responseMessage =
     trim (strip_close_fence (strip_open_fence (strip_json_fence (trim responseMessage))))"

text \<open>
  What \<^verbatim>\<open>agent.execute\<close> does is outside the repository: it rejects, or it resolves to
  something that is not an object, or to an object whose \<^verbatim>\<open>message\<close> may be missing.
  \<^verbatim>\<open>JSON.parse\<close> is an argument; \<open>None\<close> is its \<^verbatim>\<open>SyntaxError\<close>. Every failure is
  rethrown by the \<^verbatim>\<open>catch\<close> block as an \<^verbatim>\<open>Error\<close> whose message starts with
  \<^verbatim>\<open>Failed to discover actions\<close>; the error value says which failure it wraps.
\<close>

datatype agent_result = NotAnObject | ResultObject "string option"

datatype agent_outcome = AgentThrows string | AgentReturns agent_result

datatype discovery_error =
    AgentExecutionFailed string
  | InvalidAgentResult
  | MissingMessage
  | MalformedDiscoveryResponse
  | SchemaValidationFailed "path list"

definition discoverActions ::
  "(string \<Rightarrow> json option) \<Rightarrow> agent_outcome \<Rightarrow> discovery_error + DiscoveredAction list"
where
  "discoverActions JSON_parse outcome =
     (case outcome of
        AgentThrows message \<Rightarrow> Inl (AgentExecutionFailed message)
      | AgentReturns NotAnObject \<Rightarrow> Inl InvalidAgentResult
      | AgentReturns (ResultObject None) \<Rightarrow> Inl MissingMessage
      | AgentReturns (ResultObject (Some responseMessage)) \<Rightarrow>
          if responseMessage = [] then Inl MissingMessage
          else
            (case JSON_parse (clean_response responseMessage) of
               None \<Rightarrow> Inl MalformedDiscoveryResponse
             | Some parsed \<Rightarrow>
                 (case DiscoveredActionsResponseSchema [] (Some parsed) of
                    Inl issues \<Rightarrow> Inl (SchemaValidationFailed issues)
                  | Inr validated \<Rightarrow> Inr (actions validated))))"

definition fenced :: "string \<Rightarrow> string \<Rightarrow> string" where
  \<comment> \<open>a payload inside a fenced code block with a language tag (empty for none)\<close>
  "fenced tag s = fence @ tag @ ''\<newline>'' @ s @ ''\<newline>'' @ fence"

section \<open>\<^verbatim>\<open>JSON.parse\<close>\<close>

text \<open>
  The JSON grammar (ECMA-404), as a recursive-descent parser, for evaluating
  \<^verbatim>\<open>discoverActions\<close> on concrete responses. The first argument of the recursive functions
  bounds the depth of the recursion; \<open>JSON_parse\<close> starts it above the length of the text,
  and every recursive call comes after at least one consumed character. A repeated
  property name keeps its last value. An escape that names a code unit above U+00FF is
  outside the range of the string model and is answered with \<open>None\<close>.
\<close>

definition double_quote :: char where
  "double_quote = CHR 0x22"

definition backslash :: char where
  "backslash = CHR 0x5C"

definition c0_controls :: string where
  \<comment> \<open>U+0000 to U+001F\<close>
  "c0_controls =
     [CHR 0x00, CHR 0x01, CHR 0x02, CHR 0x03, CHR 0x04, CHR 0x05, CHR 0x06, CHR 0x07,
      CHR 0x08, CHR 0x09, CHR 0x0A, CHR 0x0B, CHR 0x0C, CHR 0x0D, CHR 0x0E, CHR 0x0F,
      CHR 0x10, CHR 0x11, CHR 0x12, CHR 0x13, CHR 0x14, CHR 0x15, CHR 0x16, CHR 0x17,
      CHR 0x18, CHR 0x19, CHR 0x1A, CHR 0x1B, CHR 0x1C, CHR 0x1D, CHR 0x1E, CHR 0x1F]"

definition is_json_ws :: "char \<Rightarrow> bool" where
  "is_json_ws c = (c \<in> {CHR 0x20, CHR 0x09, CHR 0x0A, CHR 0x0D})"

definition is_digit :: "char \<Rightarrow> bool" where
  "is_digit c = (c \<in> set ''0123456789'')"

definition hex_value :: "char \<Rightarrow> nat option" where
  "hex_value c =
     map_of (zip ''0123456789abcdefABCDEF''
                 [0, 1, 2, 3, 4, 5, 6, 7, 8, 9, 10, 11, 12, 13, 14, 15, 10, 11, 12, 13, 14, 15]) c"

definition unicode_escape :: "string \<Rightarrow> char option" where
  \<comment> \<open>the four hexadecimal digits after \<^verbatim>\<open>\u\<close>\<close>
  "unicode_escape ds =
     (case map hex_value ds of
        [Some a, Some b, Some c, Some d] \<Rightarrow>
          if a = 0 \<and> b = 0 then Some (char_of (16 * c + d)) else None
      | _ \<Rightarrow> None)"

definition simple_escape :: "char \<Rightarrow> char option" where
  "simple_escape e =
     map_of [(double_quote, double_quote), (backslash, backslash), (CHR ''/'', CHR ''/''),
             (CHR ''b'', CHR 0x08), (CHR ''f'', CHR 0x0C), (CHR ''n'', CHR 0x0A),
             (CHR ''r'', CHR 0x0D), (CHR ''t'', CHR 0x09)] e"

definition cons_char :: "char \<Rightarrow> (string \<times> string) option \<Rightarrow> (string \<times> string) option" where
  "cons_char c r = (case r of None \<Rightarrow> None | Some (s, rest) \<Rightarrow> Some (c # s, rest))"

fun parse_string :: "string \<Rightarrow> (string \<times> string) option" where
  \<comment> \<open>the characters of a string after its opening quote, and the text after its closing
      quote\<close>
  "parse_string [] = None"
| "parse_string (c # cs) =
     (if c = double_quote then Some ([], cs)
      else if c = backslash then
        (case cs of
           [] \<Rightarrow> None
         | e # r \<Rightarrow>
             if e = CHR ''u'' then
               (case unicode_escape (take 4 r) of
                  None \<Rightarrow> None
                | Some u \<Rightarrow> cons_char u (parse_string (drop 4 r)))
             else
               (case simple_escape e of
                  None \<Rightarrow> None
                | Some u \<Rightarrow> cons_char u (parse_string r)))
      else if c \<in> set c0_controls then None
      else cons_char c (parse_string cs))"

definition parse_digits :: "string \<Rightarrow> (string \<times> string) option" where
  \<comment> \<open>one digit or more\<close>
  "parse_digits s =
     (if takeWhile is_digit s = [] then None
      else Some (takeWhile is_digit s, dropWhile is_digit s))"

definition parse_int_part :: "string \<Rightarrow> (string \<times> string) option" where
  \<comment> \<open>a single zero, or digits that do not start with zero\<close>
  "parse_int_part s =
     (case s of
        [] \<Rightarrow> None
      | c # cs \<Rightarrow> if c = CHR ''0'' then Some (''0'', cs) else parse_digits s)"

definition parse_fraction :: "string \<Rightarrow> (string \<times> string) option" where
  "parse_fraction s =
     (case s of
        [] \<Rightarrow> Some ([], s)
      | c # cs \<Rightarrow>
          if c = CHR ''.'' then
            (case parse_digits cs of None \<Rightarrow> None | Some (ds, r) \<Rightarrow> Some (c # ds, r))
          else Some ([], s))"

definition parse_exponent :: "string \<Rightarrow> (string \<times> string) option" where
  "parse_exponent s =
     (case s of
        [] \<Rightarrow> Some ([], s)
      | c # cs \<Rightarrow>
          if c = CHR ''e'' \<or> c = CHR ''E'' then
            (case cs of
               [] \<Rightarrow> None
             | g # r \<Rightarrow>
                 if g = CHR ''+'' \<or> g = CHR ''-'' then
                   (case parse_digits r of
                      None \<Rightarrow> None
                    | Some (ds, r') \<Rightarrow> Some (c # g # ds, r'))
                 else
                   (case parse_digits cs of
                      None \<Rightarrow> None
                    | Some (ds, r') \<Rightarrow> Some (c # ds, r')))
          else Some ([], s))"

definition parse_number :: "string \<Rightarrow> (json \<times> string) option" where
  "parse_number s =
     (let sign = (if prefix ''-'' s then ''-'' else []) in
      case parse_int_part (drop (length sign) s) of
        None \<Rightarrow> None
      | Some (i, r1) \<Rightarrow>
          (case parse_fraction r1 of
             None \<Rightarrow> None
           | Some (f, r2) \<Rightarrow>
               (case parse_exponent r2 of
                  None \<Rightarrow> None
                | Some (e, r3) \<Rightarrow> Some (JNumber (sign @ i @ f @ e), r3))))"

fun put_property :: "string \<Rightarrow> json \<Rightarrow> (string \<times> json) list \<Rightarrow> (string \<times> json) list" where
  "put_property k v [] = [(k, v)]"
| "put_property k v ((k', v') # props) =
     (if k = k' then (k, v) # props else (k', v') # put_property k v props)"

fun parse_value :: "nat \<Rightarrow> string \<Rightarrow> (json \<times> string) option"
  and parse_elements :: "nat \<Rightarrow> string \<Rightarrow> json list \<Rightarrow> (json \<times> string) option"
  and parse_members :: "nat \<Rightarrow> string \<Rightarrow> (string \<times> json) list \<Rightarrow> (json \<times> string) option"
where
  "parse_value 0 s = None"
| "parse_value (Suc n) s =
     (case dropWhile is_json_ws s of
        [] \<Rightarrow> None
      | c # cs \<Rightarrow>
          if c = CHR ''{'' then
            (case dropWhile is_json_ws cs of
               [] \<Rightarrow> None
             | d # r \<Rightarrow> if d = CHR ''}'' then Some (JObject [], r) else parse_members n cs [])
          else if c = CHR ''['' then
            (case dropWhile is_json_ws cs of
               [] \<Rightarrow> None
             | d # r \<Rightarrow> if d = CHR '']'' then Some (JArray [], r) else parse_elements n cs [])
          else if c = double_quote then
            (case parse_string cs of None \<Rightarrow> None | Some (str, r) \<Rightarrow> Some (JString str, r))
          else if prefix ''true'' (c # cs) then Some (JBool True, drop 4 (c # cs))
          else if prefix ''false'' (c # cs) then Some (JBool False, drop 5 (c # cs))
          else if prefix ''null'' (c # cs) then Some (JNull, drop 4 (c # cs))
          else parse_number (c # cs))"
| "parse_elements 0 s acc = None"
| "parse_elements (Suc n) s acc =
     (case parse_value n s of
        None \<Rightarrow> None
      | Some (v, r) \<Rightarrow>
          (case dropWhile is_json_ws r of
             [] \<Rightarrow> None
           | d # r' \<Rightarrow>
               if d = CHR '','' then parse_elements n r' (acc @ [v])
               else if d = CHR '']'' then Some (JArray (acc @ [v]), r')
               else None))"
| "parse_members 0 s acc = None"
| "parse_members (Suc n) s acc =
     (case dropWhile is_json_ws s of
        [] \<Rightarrow> None
      | q # cs \<Rightarrow>
          if q \<noteq> double_quote then None
          else
            (case parse_string cs of
               None \<Rightarrow> None
             | Some (k, r) \<Rightarrow>
                 (case dropWhile is_json_ws r of
                    [] \<Rightarrow> None
                  | colon # r1 \<Rightarrow>
                      if colon \<noteq> CHR '':'' then None
                      else
                        (case parse_value n r1 of
                           None \<Rightarrow> None
                         | Some (v, r2) \<Rightarrow>
                             (case dropWhile is_json_ws r2 of
                                [] \<Rightarrow> None
                              | d # r3 \<Rightarrow>
                                  if d = CHR '','' then parse_members n r3 (put_property k v acc)
                                  else if d = CHR ''}''
                                  then Some (JObject (put_property k v acc), r3)
                                  else None)))))"

definition JSON_parse :: "string \<Rightarrow> json option" where
  "JSON_parse text =
     (case parse_value (Suc (length text)) text of
        None \<Rightarrow> None
      | Some (v, rest) \<Rightarrow> if dropWhile is_json_ws rest = [] then Some v else None)"

definition quoted :: "string \<Rightarrow> string" where
  \<comment> \<open>a string between double quotes, for writing JSON texts\<close>
  "quoted s = double_quote # s @ [double_quote]"

definition empty_catalog_text :: string where
  "empty_catalog_text = ''{'' @ quoted ''actions'' @ '':[]}''"

definition two_actions_text :: string where
  \<comment> \<open>one action of the schema's shape and one without \<^verbatim>\<open>description\<close>\<close>
  "two_actions_text =
     ''{'' @ quoted ''actions'' @ '':[''
       @ ''{'' @ quoted ''name'' @ '':'' @ quoted ''search'' @ '',''
               @ quoted ''description'' @ '':'' @ quoted ''Search the site'' @ '',''
               @ quoted ''steps'' @ '':['' @ quoted ''Type {query}'' @ '']},''
       @ ''{'' @ quoted ''name'' @ '':'' @ quoted ''open'' @ '',''
               @ quoted ''steps'' @ '':[]}''
     @ '']}''"

section \<open>URL normalization: \<^verbatim>\<open>normalizeUrl\<close>\<close>

text \<open>
  \<^verbatim>\<open>new URL(input)\<close> is the platform's URL parser. Its first steps are modelled as the URL
  standard gives them for a parse without a base URL: leading and trailing C0 controls and
  spaces are removed, then every tab and newline, then the scheme is read (a letter,
  then letters, digits, plus, hyphen or dot, up to a colon, lower-cased); without a scheme
  the parse fails. What follows the colon (authority, host, port, path, query, fragment)
  is parsed by an argument, which receives the scheme and the remaining text and may
  reject them; a second argument serializes what it produced.
\<close>

record 'r URL =
  scheme :: string
  rest :: 'r

definition is_c0_or_space :: "char \<Rightarrow> bool" where
  "is_c0_or_space c = (c \<in> set c0_controls \<or> c = CHR 0x20)"

definition is_tab_or_newline :: "char \<Rightarrow> bool" where
  "is_tab_or_newline c = (c \<in> {CHR 0x09, CHR 0x0A, CHR 0x0D})"

definition is_ascii_alpha :: "char \<Rightarrow> bool" where
  "is_ascii_alpha c = (c \<in> set (ascii_upper_letters @ ascii_lower_letters))"

definition is_scheme_char :: "char \<Rightarrow> bool" where
  "is_scheme_char c = (is_ascii_alpha c \<or> is_digit c \<or> c \<in> {CHR ''+'', CHR ''-'', CHR ''.''})"

definition strip_c0_or_space :: "string \<Rightarrow> string" where
  "strip_c0_or_space s =
     rev (dropWhile is_c0_or_space (rev (dropWhile is_c0_or_space s)))"

definition scan_scheme :: "string \<Rightarrow> (string \<times> string) option" where
  \<comment> \<open>scheme start state and scheme state: the lower-cased scheme and the text after the
      colon\<close>
  "scan_scheme s =
     (case s of
        [] \<Rightarrow> None
      | c # cs \<Rightarrow>
          if is_ascii_alpha c then
            (case dropWhile is_scheme_char cs of
               [] \<Rightarrow> None
             | d # r \<Rightarrow>
                 if d = CHR '':''
                 then Some (map ascii_lower (c # takeWhile is_scheme_char cs), r)
                 else None)
          else None)"

definition new_URL :: "(string \<Rightarrow> string \<Rightarrow> 'r option) \<Rightarrow> string \<Rightarrow> 'r URL option" where
  "new_URL parse_rest input =
     (case scan_scheme (filter (\<lambda>c. \<not> is_tab_or_newline c) (strip_c0_or_space input)) of
        None \<Rightarrow> None
      | Some (sch, r) \<Rightarrow>
          (case parse_rest sch r of
             None \<Rightarrow> None
           | Some x \<Rightarrow> Some \<lparr>scheme = sch, rest = x\<rparr>))"

definition protocol :: "'r URL \<Rightarrow> string" where
  "protocol u = scheme u @ '':''"

definition href :: "(string \<Rightarrow> 'r \<Rightarrow> string) \<Rightarrow> 'r URL \<Rightarrow> string" where
  \<comment> \<open>\<^verbatim>\<open>toString()\<close>\<close>
  "href serialize_rest u = scheme u @ '':'' @ serialize_rest (scheme u) (rest u)"

datatype url_error =
    InvalidUrlFormat
  | InvalidUrlFormatWithHint

definition normalizeUrl ::
  "(string \<Rightarrow> string \<Rightarrow> 'r option) \<Rightarrow> string \<Rightarrow> url_error + 'r URL"
where
  "normalizeUrl parse_rest input =
     (let url = trim input in
      if startsWith url ''http://'' \<or> startsWith url ''https://'' then
        (case new_URL parse_rest url of None \<Rightarrow> Inl InvalidUrlFormat | Some u \<Rightarrow> Inr u)
      else
        (case new_URL parse_rest (''https://'' @ url) of
           None \<Rightarrow> Inl InvalidUrlFormatWithHint
         | Some u \<Rightarrow> Inr u))"

definition isValidUrlInput :: "(string \<Rightarrow> string \<Rightarrow> 'r option) \<Rightarrow> string \<Rightarrow> bool" where
  "isValidUrlInput parse_rest input =
     (case normalizeUrl parse_rest input of Inl e \<Rightarrow> False | Inr u \<Rightarrow> True)"

definition url_library_ok ::
  "(string \<Rightarrow> string \<Rightarrow> 'r option) \<Rightarrow> (string \<Rightarrow> 'r \<Rightarrow> string) \<Rightarrow> bool"
where
  \<comment> \<open>what the URL standard's parser and serializer give for the schemes \<^verbatim>\<open>http\<close> and
      \<^verbatim>\<open>https\<close>: a serialized URL has its authority after two slashes, holds no white space
      and no control character (they are percent-encoded), and parses back to the same URL\<close>
  "url_library_ok parse_rest serialize_rest =
     (\<forall>sch \<in> {''http'', ''https''}. \<forall>x r.
        parse_rest sch x = Some r \<longrightarrow>
          parse_rest sch (serialize_rest sch r) = Some r
        \<and> prefix ''//'' (serialize_rest sch r)
        \<and> (\<forall>c \<in> set (serialize_rest sch r). \<not> is_ws c \<and> \<not> is_c0_or_space c))"

text \<open>
  Two libraries for evaluating \<^verbatim>\<open>normalizeUrl\<close>: one that keeps the remainder as text,
  and a small one that knows remainders of the form \<^verbatim>\<open>//host/path\<close> with a host of
  lower-case letters and dots and a path of lower-case letters, digits and slashes,
  gives an empty path as a slash, and rejects everything else.
\<close>

definition keep_rest :: "string \<Rightarrow> string \<Rightarrow> string option" where
  "keep_rest sch x = Some x"

definition is_host_char :: "char \<Rightarrow> bool" where
  "is_host_char c = (c \<in> set (ascii_lower_letters @ ''.''))"

definition is_path_char :: "char \<Rightarrow> bool" where
  "is_path_char c = (c \<in> set (ascii_lower_letters @ ''0123456789/''))"

definition plain_rest :: "string \<Rightarrow> string \<Rightarrow> string option" where
  "plain_rest sch x =
     (if prefix ''//'' x then
        (let host = takeWhile is_host_char (drop 2 x);
             path = dropWhile is_host_char (drop 2 x)
         in if host \<noteq> [] \<and> (path = [] \<or> hd path = CHR ''/'') \<and> list_all is_path_char path
            then Some (''//'' @ host @ (if path = [] then ''/'' else path))
            else None)
      else None)"

definition plain_serialize :: "string \<Rightarrow> string \<Rightarrow> string" where
  "plain_serialize sch r = r"

section \<open>Properties of the string helpers\<close>

lemma lower_char_alt:
  "lower_char c =
     (case map_of (zip ascii_upper_letters ascii_lower_letters) c of
        Some d \<Rightarrow> d
      | None \<Rightarrow> (case map_of (zip latin1_upper_letters latin1_lower_letters) c of
                   Some d \<Rightarrow> d | None \<Rightarrow> c))"
proof -
  have "length ascii_upper_letters = length ascii_lower_letters"
    by (simp add: ascii_upper_letters_def ascii_lower_letters_def)
  then have "zip (ascii_upper_letters @ latin1_upper_letters)
                 (ascii_lower_letters @ latin1_lower_letters)
             = zip ascii_upper_letters ascii_lower_letters
               @ zip latin1_upper_letters latin1_lower_letters"
    by simp
  then show ?thesis
    by (simp add: lower_char_def map_add_def split: option.splits)
qed

lemma ascii_table_range:
  "map_of (zip ascii_upper_letters ascii_lower_letters) c = Some d \<Longrightarrow> d \<in> set ascii_lower_letters"
  by (meson map_of_SomeD set_zip_rightD)

lemma latin1_table_range:
  "map_of (zip latin1_upper_letters latin1_lower_letters) c = Some d \<Longrightarrow> d \<in> set latin1_lower_letters"
  by (meson map_of_SomeD set_zip_rightD)

lemma latin1_table_dom:
  "c \<notin> set latin1_upper_letters \<Longrightarrow> map_of (zip latin1_upper_letters latin1_lower_letters) c = None"
  by (subst map_of_zip_is_None) (simp_all add: latin1_upper_letters_def latin1_lower_letters_def)

lemma ws_not_lower_letter:
  "is_ws d \<Longrightarrow> d \<notin> set ascii_lower_letters \<and> d \<notin> set latin1_lower_letters"
  unfolding is_ws_def
  by (elim insertE emptyE; simp add: ascii_lower_letters_def latin1_lower_letters_def)

lemma skip_letter_not_latin1:
  "d \<in> set ''skip'' \<Longrightarrow> d \<notin> set latin1_lower_letters \<and> d \<notin> set latin1_upper_letters"
  by (auto simp: latin1_lower_letters_def latin1_upper_letters_def)

lemma lower_char_ws: "is_ws c \<Longrightarrow> lower_char c = c"
  unfolding is_ws_def
  by (elim insertE emptyE; simp add: lower_char_def ascii_upper_letters_def
        ascii_lower_letters_def latin1_upper_letters_def latin1_lower_letters_def)

lemma lower_char_ws_rev: "is_ws (lower_char c) \<Longrightarrow> is_ws c"
  using ws_not_lower_letter [of "lower_char c"] ascii_table_range [of c] latin1_table_range [of c]
  by (auto simp: lower_char_alt split: option.splits)

lemma lower_char_skip_letter:
  assumes "d \<in> set ''skip''"
  shows "lower_char c = d \<longleftrightarrow> ascii_lower c = d"
proof (cases "map_of (zip ascii_upper_letters ascii_lower_letters) c")
  case (Some e)
  then show ?thesis by (simp add: lower_char_alt ascii_lower_def)
next
  case None
  show ?thesis
  proof (cases "map_of (zip latin1_upper_letters latin1_lower_letters) c")
    case inner: None
    with None show ?thesis by (simp add: lower_char_alt ascii_lower_def)
  next
    case (Some e)
    then have e: "e \<in> set latin1_lower_letters" by (rule latin1_table_range)
    have "c \<in> set latin1_upper_letters"
      using Some latin1_table_dom [of c] by auto
    with e assms skip_letter_not_latin1 [of d] show ?thesis
      using None Some by (auto simp: lower_char_alt ascii_lower_def)
  qed
qed

lemma map_lower_skip:
  "map lower_char w = ''skip'' \<longleftrightarrow> map ascii_lower w = ''skip''"
proof -
  have *: "\<And>c d. d \<in> set ''skip'' \<Longrightarrow> (lower_char c = d) = (ascii_lower c = d)"
    by (rule lower_char_skip_letter)
  show ?thesis
    by (auto simp: map_eq_Cons_conv *)
qed

lemma toLowerCase_ws: "list_all is_ws s \<Longrightarrow> toLowerCase s = s"
  by (induction s) (simp_all add: toLowerCase_def lower_char_ws)

lemma toLowerCase_ws_rev: "list_all is_ws (toLowerCase s) \<Longrightarrow> list_all is_ws s"
  by (induction s) (auto simp: toLowerCase_def lower_char_ws_rev)

lemma trimStart_ws_append: "list_all is_ws pre \<Longrightarrow> trimStart (pre @ s) = trimStart s"
  by (induction pre) (simp_all add: trimStart_def)

lemma trimEnd_append_ws: "list_all is_ws post \<Longrightarrow> trimEnd (s @ post) = trimEnd s"
proof -
  assume "list_all is_ws post"
  then have "list_all is_ws (rev post)" by (simp add: list_all_iff)
  then have "dropWhile is_ws (rev post @ rev s) = dropWhile is_ws (rev s)"
    using trimStart_ws_append [of "rev post" "rev s"] by (simp add: trimStart_def)
  then show ?thesis by (simp add: trimEnd_def)
qed

lemma trim_decompose:
  "\<exists>pre post. s = pre @ trim s @ post \<and> list_all is_ws pre \<and> list_all is_ws post"
proof -
  let ?a = "takeWhile is_ws s" and ?b = "dropWhile is_ws s"
  let ?c = "rev (takeWhile is_ws (rev ?b))"
  have 1: "s = ?a @ ?b" by simp
  have "rev ?b = takeWhile is_ws (rev ?b) @ dropWhile is_ws (rev ?b)" by simp
  then have "rev (rev ?b) = rev (takeWhile is_ws (rev ?b) @ dropWhile is_ws (rev ?b))"
    by (rule arg_cong)
  then have 2: "?b = trim s @ ?c"
    unfolding rev_append rev_rev_ident trim_def trimEnd_def trimStart_def .
  have 3: "list_all is_ws ?a"
    by (simp add: list_all_iff) (meson set_takeWhileD)
  have 4: "list_all is_ws ?c"
    by (simp add: list_all_iff) (meson set_takeWhileD)
  from 1 2 have "s = ?a @ trim s @ ?c" by simp
  with 3 4 show ?thesis by blast
qed

lemma trim_core:
  assumes "list_all is_ws pre" and "list_all is_ws post"
    and "m \<noteq> []" and "\<not> is_ws (hd m)" and "\<not> is_ws (last m)"
  shows "trim (pre @ m @ post) = m"
proof -
  from assms(3) obtain c cs where m1: "m = c # cs" by (cases m) auto
  from assms(3) obtain ds d where m2: "m = ds @ [d]" by (cases m rule: rev_cases) auto
  have "trimStart (pre @ m @ post) = trimStart (m @ post)"
    using assms(1) by (rule trimStart_ws_append)
  also have "\<dots> = m @ post" using assms(4) m1 by (simp add: trimStart_def)
  finally have "trim (pre @ m @ post) = trimEnd (m @ post)" by (simp add: trim_def)
  also have "\<dots> = trimEnd m" using assms(2) by (rule trimEnd_append_ws)
  also have "\<dots> = m" using assms(5) m2 by (simp add: trimEnd_def)
  finally show ?thesis .
qed

lemma map_eq_appendD:
  "map f xs = ys @ zs \<Longrightarrow> \<exists>us vs. xs = us @ vs \<and> map f us = ys \<and> map f vs = zs"
  unfolding map_eq_append_conv by blast

lemma skip_inputD: "is_skip_input s \<Longrightarrow> \<exists>pre w post. s = pre @ w @ post \<and> list_all is_ws pre \<and> list_all is_ws post \<and> map ascii_lower w = ''skip''"
  unfolding is_skip_input_def .

lemma trim_skip:
  assumes pre: "list_all is_ws pre" and post: "list_all is_ws post"
  shows "trim (pre @ ''skip'' @ post) = ''skip''"
  proof (rule trim_core [OF pre post])
    show "''skip'' \<noteq> []" by simp
    show "\<not> is_ws (hd ''skip'')" by (simp add: is_ws_def)
    show "\<not> is_ws (last ''skip'')" by (simp add: is_ws_def)
  qed

lemma skip_input_imp: 
  assumes "is_skip_input s" shows "trim (toLowerCase s) = ''skip''"
proof -
  from skip_inputD [OF assms] obtain pre w post where s: "s = pre @ w @ post"
    and pre: "list_all is_ws pre" and post: "list_all is_ws post"
    and w: "map ascii_lower w = ''skip''"
    by (elim exE conjE)
  from w have w': "map lower_char w = ''skip''" by (simp only: map_lower_skip)
  have "toLowerCase s = toLowerCase pre @ map lower_char w @ toLowerCase post"
    unfolding s toLowerCase_def map_append ..
  then have "toLowerCase s = pre @ ''skip'' @ post"
    by (simp only: toLowerCase_ws [OF pre] toLowerCase_ws [OF post] w')
  then show "trim (toLowerCase s) = ''skip''" 
    using trim_skip [OF pre post] by (simp only:)
qed

lemma skip_input_rev:
  assumes t: "trim (toLowerCase s) = ''skip''" shows "is_skip_input s"
proof -
  from trim_decompose [of "toLowerCase s"]
  obtain pre post where d0: "toLowerCase s = pre @ trim (toLowerCase s) @ post"
    and pre: "list_all is_ws pre" and post: "list_all is_ws post"
    by (elim exE conjE)
  from d0 have "toLowerCase s = pre @ (''skip'' @ post)"
    by (simp only: t)
  then have d: "map lower_char s = pre @ (''skip'' @ post)"
    by (simp only: toLowerCase_def)
  from map_eq_appendD [OF d] obtain a r where s1: "s = a @ r" and a: "map lower_char a = pre"
    and r: "map lower_char r = ''skip'' @ post"
    by (elim exE conjE)
  from map_eq_appendD [OF r] obtain w b where s2: "r = w @ b"
    and w: "map lower_char w = ''skip''" and b: "map lower_char b = post"
    by (elim exE conjE)
  have wa: "list_all is_ws a" using pre a toLowerCase_ws_rev [of a] by (simp only: toLowerCase_def)
  have wb: "list_all is_ws b"
    using post b toLowerCase_ws_rev [of b] by (simp only: toLowerCase_def)
  have ww: "map ascii_lower w = ''skip''" using w by (simp only: map_lower_skip)
  have "s = a @ w @ b" unfolding s1 s2 ..
  with wa wb ww show "is_skip_input s"
    unfolding is_skip_input_def by (intro exI conjI)
qed

lemma skip_input_iff: "is_skip_input s \<longleftrightarrow> trim (toLowerCase s) = ''skip''"
  using skip_input_imp skip_input_rev by blast

section \<open>Properties of model selection\<close>

lemma replace_first_prefix:
  "prefix pat s \<Longrightarrow> replace_first pat [] s = drop (length pat) s"
  by (cases s) auto

lemma cache_after_unsupported:
  "\<not> (\<exists>pre \<in> set recognized_prefixes. prefix pre (MODEL_PROVIDER env)) \<Longrightarrow>
   cache_after n env = None"
  by (induction n) (simp_all add: getModel_def startsWith_def recognized_prefixes_def)

lemma getModel_cached: "getModel (Some m) env = (Inr m, Some m)"
  by (simp add: getModel_def)

lemma cache_after_supported:
  "getModel None env = (Inr m, Some m) \<Longrightarrow> getModel (cache_after n env) env = (Inr m, Some m)"
  by (induction n) (simp_all add: getModel_cached)

lemma getModel_first_call:
  fixes env :: env_vars
  defines "p \<equiv> MODEL_PROVIDER env" and "k \<equiv> MODEL_API_KEY env"
  shows "prefix ''openai/'' p \<Longrightarrow>
           getModel None env = (Inr (OpenAIModel k (drop (length ''openai/'') p)),
                                Some (OpenAIModel k (drop (length ''openai/'') p)))"
    and "prefix ''anthropic/'' p \<Longrightarrow>
           getModel None env = (Inr (AnthropicModel k (drop (length ''anthropic/'') p)),
                                Some (AnthropicModel k (drop (length ''anthropic/'') p)))"
    and "prefix ''google/'' p \<Longrightarrow>
           getModel None env = (Inr (GoogleModel k (drop (length ''google/'') p)),
                                Some (GoogleModel k (drop (length ''google/'') p)))"
    and "prefix ''xai/'' p \<Longrightarrow>
           getModel None env = (Inr (XaiModel k (drop (length ''xai/'') p)),
                                Some (XaiModel k (drop (length ''xai/'') p)))"
  by (auto simp add: getModel_def startsWith_def replace_first_prefix p_def k_def Let_def
        prefix_def)

text \<open>
  Claim C9. Model configuration fails fast: under a configuration whose provider string
  starts with none of \<^verbatim>\<open>openai/\<close>, \<^verbatim>\<open>anthropic/\<close>, \<^verbatim>\<open>google/\<close>, \<^verbatim>\<open>xai/\<close>, every call of
  \<^verbatim>\<open>getModel\<close> since the module was loaded fails with \<open>UnsupportedModelProvider\<close> and
  caches nothing, and the coordinator stops at the configuration stage, before any
  browser or session stage is started. Under a provider string with one of the four
  prefixes every call returns the model of that provider, named by the rest of the string
  (built by the first call, cached for the later ones).
\<close>

theorem model_configuration_fails_fast:
  fixes env :: env_vars
  defines "p \<equiv> MODEL_PROVIDER env" and "k \<equiv> MODEL_API_KEY env"
  shows "(\<not> (\<exists>pre \<in> set recognized_prefixes. prefix pre p) \<longrightarrow>
            getModel (cache_after n env) env = (Inl (UnsupportedModelProvider p), None)
          \<and> pipeline_coordinator env skipAuth
              = ([ModelConfiguration], Inl (UnsupportedModelProvider p))
          \<and> \<not> list_ex browser_or_session_work (fst (pipeline_coordinator env skipAuth)))
       \<and> (prefix ''openai/'' p \<longrightarrow>
            getModel (cache_after n env) env =
              (Inr (OpenAIModel k (drop (length ''openai/'') p)),
               Some (OpenAIModel k (drop (length ''openai/'') p))))
       \<and> (prefix ''anthropic/'' p \<longrightarrow>
            getModel (cache_after n env) env =
              (Inr (AnthropicModel k (drop (length ''anthropic/'') p)),
               Some (AnthropicModel k (drop (length ''anthropic/'') p))))
       \<and> (prefix ''google/'' p \<longrightarrow>
            getModel (cache_after n env) env =
              (Inr (GoogleModel k (drop (length ''google/'') p)),
               Some (GoogleModel k (drop (length ''google/'') p))))
       \<and> (prefix ''xai/'' p \<longrightarrow>
            getModel (cache_after n env) env =
              (Inr (XaiModel k (drop (length ''xai/'') p)),
               Some (XaiModel k (drop (length ''xai/'') p))))"
proof -
  have none: "getModel (cache_after n env) env = (Inl (UnsupportedModelProvider p), None)
          \<and> pipeline_coordinator env skipAuth
              = ([ModelConfiguration], Inl (UnsupportedModelProvider p))
          \<and> \<not> list_ex browser_or_session_work (fst (pipeline_coordinator env skipAuth))"
    if u: "\<not> (\<exists>pre \<in> set recognized_prefixes. prefix pre p)"
  proof -
    from u have c: "cache_after n env = None" unfolding p_def by (rule cache_after_unsupported)
    have g: "getModel None env = (Inl (UnsupportedModelProvider p), None)"
      using u by (simp add: getModel_def startsWith_def recognized_prefixes_def p_def)
    then have "pipeline_coordinator env skipAuth
        = ([ModelConfiguration], Inl (UnsupportedModelProvider p))"
      by (simp add: pipeline_coordinator_def)
    with c g show ?thesis by simp
  qed
  note first = getModel_first_call [of env, folded p_def k_def]
  from none first [THEN cache_after_supported, of n] show ?thesis by blast
qed

theorem model_configuration_fails_fast_witness:
  "getModel (cache_after 3 \<lparr>MODEL_PROVIDER = ''mistral/large'', MODEL_API_KEY = ''k''\<rparr>)
       \<lparr>MODEL_PROVIDER = ''mistral/large'', MODEL_API_KEY = ''k''\<rparr>
     = (Inl (UnsupportedModelProvider ''mistral/large''), None)
   \<and> pipeline_coordinator \<lparr>MODEL_PROVIDER = ''mistral/large'', MODEL_API_KEY = ''k''\<rparr> False
     = ([ModelConfiguration], Inl (UnsupportedModelProvider ''mistral/large''))
   \<and> pipeline_coordinator \<lparr>MODEL_PROVIDER = ''openai/gpt-4o'', MODEL_API_KEY = ''k''\<rparr> False
     = ([ModelConfiguration, SessionContext, Authentication, ActionDiscovery, Generation],
        Inr (OpenAIModel ''k'' ''gpt-4o''))
   \<and> getModel (cache_after 0 \<lparr>MODEL_PROVIDER = ''openai/gpt-4o'', MODEL_API_KEY = ''k''\<rparr>)
       \<lparr>MODEL_PROVIDER = ''openai/gpt-4o'', MODEL_API_KEY = ''k''\<rparr>
     = (Inr (OpenAIModel ''k'' ''gpt-4o''), Some (OpenAIModel ''k'' ''gpt-4o''))
   \<and> getModel (cache_after 2 \<lparr>MODEL_PROVIDER = ''anthropic/claude'', MODEL_API_KEY = ''k''\<rparr>)
       \<lparr>MODEL_PROVIDER = ''anthropic/claude'', MODEL_API_KEY = ''k''\<rparr>
     = (Inr (AnthropicModel ''k'' ''claude''), Some (AnthropicModel ''k'' ''claude''))
   \<and> getModel (cache_after 0 \<lparr>MODEL_PROVIDER = ''google/gemini-2.0-flash'', MODEL_API_KEY = ''k''\<rparr>)
       \<lparr>MODEL_PROVIDER = ''google/gemini-2.0-flash'', MODEL_API_KEY = ''k''\<rparr>
     = (Inr (GoogleModel ''k'' ''gemini-2.0-flash''), Some (GoogleModel ''k'' ''gemini-2.0-flash''))
   \<and> getModel (cache_after 1 \<lparr>MODEL_PROVIDER = ''xai/grok'', MODEL_API_KEY = ''k''\<rparr>)
       \<lparr>MODEL_PROVIDER = ''xai/grok'', MODEL_API_KEY = ''k''\<rparr>
     = (Inr (XaiModel ''k'' ''grok''), Some (XaiModel ''k'' ''grok''))"
proof -
  have p: "pipeline_coordinator \<lparr>MODEL_PROVIDER = ''openai/gpt-4o'', MODEL_API_KEY = ''k''\<rparr> False
     = ([ModelConfiguration, SessionContext, Authentication, ActionDiscovery, Generation],
        Inr (OpenAIModel ''k'' ''gpt-4o''))"
    by (simp add: pipeline_coordinator_def pipeline_stages_def getModel_def startsWith_def Let_def)
  from p
    model_configuration_fails_fast [of "\<lparr>MODEL_PROVIDER = ''mistral/large'', MODEL_API_KEY = ''k''\<rparr>" 3 False]
    model_configuration_fails_fast [of "\<lparr>MODEL_PROVIDER = ''openai/gpt-4o'', MODEL_API_KEY = ''k''\<rparr>" 0 False]
    model_configuration_fails_fast [of "\<lparr>MODEL_PROVIDER = ''anthropic/claude'', MODEL_API_KEY = ''k''\<rparr>" 2 False]
    model_configuration_fails_fast [of "\<lparr>MODEL_PROVIDER = ''google/gemini-2.0-flash'', MODEL_API_KEY = ''k''\<rparr>" 0 False]
    model_configuration_fails_fast [of "\<lparr>MODEL_PROVIDER = ''xai/grok'', MODEL_API_KEY = ''k''\<rparr>" 1 False]
  show ?thesis by (simp add: recognized_prefixes_def)
qed

section \<open>Properties of the authentication analysis\<close>

lemma matches_here_iff:
  "matches_here p s \<longleftrightarrow> (\<exists>w r. s = w @ r \<and> map ascii_lower w = map ascii_lower p)"
proof (induction p s rule: matches_here.induct)
  case (1 s)
  then show ?case by simp
next
  case (2 p ps)
  then show ?case by simp
next
  case (3 p ps c cs)
  show ?case
  proof
    assume "matches_here (p # ps) (c # cs)"
    then have h: "ascii_lower c = ascii_lower p" and "matches_here ps cs" by simp_all
    with 3 obtain w r where "cs = w @ r" "map ascii_lower w = map ascii_lower ps" by blast
    with h have "c # cs = (c # w) @ r \<and> map ascii_lower (c # w) = map ascii_lower (p # ps)"
      by simp
    then show "\<exists>w r. c # cs = w @ r \<and> map ascii_lower w = map ascii_lower (p # ps)"
      by blast
  next
    assume "\<exists>w r. c # cs = w @ r \<and> map ascii_lower w = map ascii_lower (p # ps)"
    then obtain w r where s: "c # cs = w @ r"
      and m: "map ascii_lower w = map ascii_lower (p # ps)" by blast
    from m obtain d ds where w: "w = d # ds" by (cases w) auto
    with s m have "ascii_lower c = ascii_lower p" "cs = ds @ r"
      "map ascii_lower ds = map ascii_lower ps" by simp_all
    with 3 show "matches_here (p # ps) (c # cs)" by auto
  qed
qed

lemma regex_test_iff:
  "regex_test alts s \<longleftrightarrow>
     (\<exists>a \<in> set alts. \<exists>w. sublist w s \<and> map ascii_lower w = map ascii_lower a)"
proof (induction s)
  case Nil
  show ?case
    by (auto simp: list_ex_iff matches_here_iff)
next
  case (Cons c cs)
  have "(\<exists>a \<in> set alts. \<exists>w. sublist w (c # cs) \<and> map ascii_lower w = map ascii_lower a)
      \<longleftrightarrow> (\<exists>a \<in> set alts. (\<exists>w. prefix w (c # cs) \<and> map ascii_lower w = map ascii_lower a)
                            \<or> (\<exists>w. sublist w cs \<and> map ascii_lower w = map ascii_lower a))"
    by (auto simp: sublist_Cons_right)
  also have "\<dots> \<longleftrightarrow> (list_ex (\<lambda>a. matches_here a (c # cs)) alts \<or> regex_test alts cs)"
    unfolding Cons.IH list_ex_iff matches_here_iff prefix_def by blast
  finally show ?case by simp
qed

lemma auth_keywords_lower: "a \<in> set auth_keywords \<Longrightarrow> map ascii_lower a = a"
  by (auto simp: auth_keywords_def ascii_lower_def ascii_upper_letters_def ascii_lower_letters_def)

lemma regex_test_keywords: "regex_test auth_keywords url = mentions_keyword url"
  unfolding regex_test_iff mentions_keyword_def
  by (auto simp: auth_keywords_lower)

text \<open>
  Claim C4. \<^verbatim>\<open>analyzeAuthenticationState\<close> always returns an analysis: what the extraction
  produced when it succeeds, and otherwise (the extraction raised, with an error message
  or with anything else) an analysis whose \<open>requiresAuth\<close> holds exactly when the page URL
  contains one of \<^verbatim>\<open>login\<close>, \<^verbatim>\<open>signin\<close>, \<^verbatim>\<open>auth\<close>, \<^verbatim>\<open>sign-in\<close>, \<^verbatim>\<open>account\<close> in any
  letter case, whose summary says that the heuristic was used, and whose other fields are
  absent.
\<close>

theorem analyzer_never_throws:
  "analyzeAuthenticationState (Extracted result) url = result
   \<and> analyzeAuthenticationState (ExtractError message) url =
       \<lparr>requiresAuth = mentions_keyword url, loginButton = None,
        summary = Some (''Heuristic result after extract error: '' @ message),
        canAutofill = None, recommendedStrategy = None, steps = None, blockers = None,
        mfa = None\<rparr>
   \<and> analyzeAuthenticationState ExtractThrown url =
       \<lparr>requiresAuth = mentions_keyword url, loginButton = None,
        summary = Some ''Heuristic result after extract error.'',
        canAutofill = None, recommendedStrategy = None, steps = None, blockers = None,
        mfa = None\<rparr>"
  by (simp add: analyzeAuthenticationState_def regex_test_keywords)

theorem analyzer_never_throws_witness:
  "mentions_keyword ''https://example.com/Sign-In?next=1''
   \<and> \<not> mentions_keyword ''https://example.com/docs''
   \<and> requiresAuth (analyzeAuthenticationState (ExtractError ''timeout'')
         ''https://example.com/Sign-In?next=1'')
   \<and> \<not> requiresAuth (analyzeAuthenticationState ExtractThrown ''https://example.com/docs'')"
proof -
  have 1: "regex_test auth_keywords ''https://example.com/Sign-In?next=1''"
    by code_simp
  have 2: "\<not> regex_test auth_keywords ''https://example.com/docs''"
    by code_simp
  have 3: "requiresAuth (analyzeAuthenticationState (ExtractError ''timeout'')
         ''https://example.com/Sign-In?next=1'')"
    using 1 by (simp add: analyzeAuthenticationState_def)
  have 4: "\<not> requiresAuth (analyzeAuthenticationState ExtractThrown ''https://example.com/docs'')"
    using 2 by (simp add: analyzeAuthenticationState_def)
  from 3 4
    analyzer_never_throws [of "analysis_of False None None" "''https://example.com/Sign-In?next=1''" "''timeout''"]
    analyzer_never_throws [of "analysis_of False None None" "''https://example.com/docs''" "''timeout''"]
  show ?thesis by simp
qed

section \<open>Properties of the authentication orchestrator\<close>

lemma emit_fst: "fst (emit evs r) = evs @ fst r"
  by (simp add: emit_def)

lemma emit_snd: "snd (emit evs r) = snd r"
  by (simp add: emit_def)

lemma emit_emit: "emit a (emit b r) = emit (a @ b) r"
  by (simp add: emit_def)

lemma emit_pair: "emit evs (tr, res) = (evs @ tr, res)"
  by (simp add: emit_def)

lemma events_after_append:
  "e \<notin> set pre \<Longrightarrow> events_after e (pre @ tr) = events_after e tr"
  by (induction pre) auto

lemmas run_defs = authenticateToWebsite_def analyze_def
          analyzeAuthenticationState_def analysis_of_def click_login_def automatic_login_def
          manual_login_def getDebugUrl_def emit_def

lemma manual_login_outcome:
  assumes "WaitForUserInput \<in> set (fst (manual_login W url))"
  shows "manual_login W url =
     emit [Log (DebugUrl (''https://browserbase.com/sessions/'' @ the (session_id W))),
           OpenDebugger (session_id W), Log PressEnterOrSkip, WaitForUserInput]
       (if trim (toLowerCase (user_input W)) = ''skip''
        then ([Log SkippingAuthentication, Goto url],
              if goto_ok W SkipReturn then Inr AuthenticationSkipped else Inl NavigationFailed)
        else if requiresAuth (analyze W AfterManual)
        then ([Analyze], Inl AuthenticationIncomplete)
        else ([Analyze, Log AuthenticationConfirmed], Inr ManualLoginDone))"
  using assms
  by (auto simp: manual_login_def getDebugUrl_def emit_def split: option.splits if_splits)

lemma click_login_no_wait: "WaitForUserInput \<notin> set (fst (click_login W a))"
  by (simp add: click_login_def split: option.splits)

lemma emit_witness:
  "WaitForUserInput \<notin> set pre \<Longrightarrow> r = emit pre (manual_login W url) \<Longrightarrow>
   \<exists>pre. WaitForUserInput \<notin> set pre \<and> r = emit pre (manual_login W url)"
  by blast

lemma automatic_login_reaches_manual:
  assumes "WaitForUserInput \<in> set (fst (automatic_login W url a))"
  shows "\<exists>pre. WaitForUserInput \<notin> set pre \<and> automatic_login W url a = emit pre (manual_login W url)"
proof (cases "vault W")
  case None
  then have "automatic_login W url a = emit [] (manual_login W url)"
    by (simp add: automatic_login_def emit_def)
  then show ?thesis by (intro emit_witness [of "[]"]) simp_all
next
  case (Some creds)
  show ?thesis
  proof (cases "canAutofill a = Some True")
    case False
    with Some have "automatic_login W url a = emit [] (manual_login W url)"
      by (simp add: automatic_login_def emit_def)
    then show ?thesis by (intro emit_witness [of "[]"]) simp_all
  next
    case True
    consider (u) "\<not> act_ok W TypeUsername"
      | (p) "act_ok W TypeUsername" "\<not> act_ok W TypePassword"
      | (s) "act_ok W TypeUsername" "act_ok W TypePassword" "\<not> act_ok W SubmitLogin"
      | (r) "act_ok W TypeUsername" "act_ok W TypePassword" "act_ok W SubmitLogin"
            "requiresAuth (analyze W AfterAutofill)"
      | (d) "act_ok W TypeUsername" "act_ok W TypePassword" "act_ok W SubmitLogin"
            "\<not> requiresAuth (analyze W AfterAutofill)"
      by blast
    then show ?thesis
    proof cases
      case u
      with Some True show ?thesis
        by (intro emit_witness) (simp_all add: automatic_login_def emit_emit)
    next
      case p
      with Some True show ?thesis
        by (intro emit_witness) (simp_all add: automatic_login_def emit_emit)
    next
      case s
      with Some True show ?thesis
        by (intro emit_witness) (simp_all add: automatic_login_def emit_emit)
    next
      case r
      with Some True show ?thesis
        by (intro emit_witness) (simp_all add: automatic_login_def emit_emit)
    next
      case d
      with Some True assms show ?thesis
        by (simp add: automatic_login_def emit_fst)
    qed
  qed
qed

lemma reaches_manual:
  assumes "WaitForUserInput \<in> set (fst (authenticateToWebsite W url domain))"
  shows "\<exists>pre. WaitForUserInput \<notin> set pre
           \<and> authenticateToWebsite W url domain = emit pre (manual_login W url)"
proof -
  obtain clicks a where c: "click_login W (analyze W FirstAnalysis) = (clicks, a)"
    by (cases "click_login W (analyze W FirstAnalysis)")
  have nw: "WaitForUserInput \<notin> set clicks"
    using click_login_no_wait [of W "analyze W FirstAnalysis"] c by simp
  from assms have run: "authenticateToWebsite W url domain =
      emit ([AwaitActivePage, Goto url, Analyze, LookupCredentials domain] @ clicks)
        (automatic_login W url a)"
    and w: "WaitForUserInput \<in> set (fst (automatic_login W url a))"
    using nw by (auto simp: authenticateToWebsite_def c emit_emit emit_fst split: if_splits)
  from automatic_login_reaches_manual [OF w] obtain pre
    where pre: "WaitForUserInput \<notin> set pre"
      and a: "automatic_login W url a = emit pre (manual_login W url)"
    by blast
  show ?thesis
    by (rule emit_witness [of "[AwaitActivePage, Goto url, Analyze, LookupCredentials domain] @ clicks @ pre"])
       (simp_all add: run a emit_emit nw pre)
qed

lemma manual_step_after_input:
  assumes "WaitForUserInput \<in> set (fst (authenticateToWebsite W url domain))"
  shows "events_after WaitForUserInput (fst (authenticateToWebsite W url domain)) =
           (if is_skip_input (user_input W) then [Log SkippingAuthentication, Goto url]
            else if requiresAuth (analyze W AfterManual) then [Analyze]
            else [Analyze, Log AuthenticationConfirmed])"
    and "snd (authenticateToWebsite W url domain) =
           (if is_skip_input (user_input W)
            then (if goto_ok W SkipReturn then Inr AuthenticationSkipped else Inl NavigationFailed)
            else if requiresAuth (analyze W AfterManual) then Inl AuthenticationIncomplete
            else Inr ManualLoginDone)"
proof -
  from reaches_manual [OF assms] obtain pre where pre: "WaitForUserInput \<notin> set pre"
    and run: "authenticateToWebsite W url domain = emit pre (manual_login W url)"
    by blast
  from assms pre have m: "WaitForUserInput \<in> set (fst (manual_login W url))"
    by (simp add: run emit_fst)
  note out = manual_login_outcome [OF m]
  have "fst (authenticateToWebsite W url domain) = pre @ fst (manual_login W url)"
    by (simp add: run emit_fst)
  then have "events_after WaitForUserInput (fst (authenticateToWebsite W url domain))
      = events_after WaitForUserInput (fst (manual_login W url))"
    using pre by (simp add: events_after_append)
  also have "\<dots> = (if is_skip_input (user_input W) then [Log SkippingAuthentication, Goto url]
            else if requiresAuth (analyze W AfterManual) then [Analyze]
            else [Analyze, Log AuthenticationConfirmed])"
    by (subst out) (simp add: emit_fst skip_input_iff)
  finally show "events_after WaitForUserInput (fst (authenticateToWebsite W url domain)) =
           (if is_skip_input (user_input W) then [Log SkippingAuthentication, Goto url]
            else if requiresAuth (analyze W AfterManual) then [Analyze]
            else [Analyze, Log AuthenticationConfirmed])" .
  have "snd (authenticateToWebsite W url domain) = snd (manual_login W url)"
    by (simp add: run emit_snd)
  also have "\<dots> = (if is_skip_input (user_input W)
            then (if goto_ok W SkipReturn then Inr AuthenticationSkipped else Inl NavigationFailed)
            else if requiresAuth (analyze W AfterManual) then Inl AuthenticationIncomplete
            else Inr ManualLoginDone)"
    by (subst out) (simp add: emit_snd skip_input_iff)
  finally show "snd (authenticateToWebsite W url domain) =
           (if is_skip_input (user_input W)
            then (if goto_ok W SkipReturn then Inr AuthenticationSkipped else Inl NavigationFailed)
            else if requiresAuth (analyze W AfterManual) then Inl AuthenticationIncomplete
            else Inr ManualLoginDone)" .
qed

lemma enter_is_not_skip: "\<not> is_skip_input ''\<newline>''"
  by (simp add: skip_input_iff toLowerCase_def trim_def trimStart_def trimEnd_def is_ws_def lower_char_ws)

text \<open>
  Claim C5. When the first analysis reports that no login is required, the orchestrator
  returns at once: the run consists of finding the page, the navigation, that one analysis
  and the notice; the vault is not consulted, the debugger is not opened and no operator
  input is awaited.
\<close>

theorem no_login_short_circuit:
  assumes "active_page W" and "goto_ok W FirstVisit"
    and "\<not> requiresAuth (analyze W FirstAnalysis)"
  shows "authenticateToWebsite W url domain
           = ([AwaitActivePage, Goto url, Analyze, Log NoAuthenticationRequired], Inr NoLoginNeeded)
       \<and> LookupCredentials domain \<notin> set (fst (authenticateToWebsite W url domain))
       \<and> OpenDebugger (session_id W) \<notin> set (fst (authenticateToWebsite W url domain))
       \<and> WaitForUserInput \<notin> set (fst (authenticateToWebsite W url domain))"
  using assms by (simp add: authenticateToWebsite_def emit_def)

theorem no_login_short_circuit_witness:
  "active_page open_site \<and> goto_ok open_site FirstVisit
   \<and> \<not> requiresAuth (analyze open_site FirstAnalysis)
   \<and> authenticateToWebsite open_site ''https://example.com/'' ''example.com''
       = ([AwaitActivePage, Goto ''https://example.com/'', Analyze, Log NoAuthenticationRequired],
          Inr NoLoginNeeded)"
proof -
  have a: "active_page open_site" and g: "goto_ok open_site FirstVisit"
    and r: "\<not> requiresAuth (analyze open_site FirstAnalysis)"
    by (simp_all add: open_site_def analyze_def analyzeAuthenticationState_def analysis_of_def)
  from no_login_short_circuit [OF a g r] a g r show ?thesis by simp
qed

text \<open>
  Claim C8 as stated asks for a new analysis after the click attempt. On a site whose
  sign-in click fails, the events after the click hold no analysis: the failure is logged
  and the manual step follows.
\<close>

theorem click_failure_skips_reanalysis:
  "authenticateToWebsite (gated_site False ''skip'' True) ''https://example.com/'' ''example.com''
     = ([AwaitActivePage, Goto ''https://example.com/'', Analyze, LookupCredentials ''example.com'',
         Log (ClickingLoginButton ''Click the Sign In button''), Act ''Click the Sign In button'',
         Log ClickFailed,
         Log (DebugUrl ''https://browserbase.com/sessions/session-1''),
         OpenDebugger (Some ''session-1''), Log PressEnterOrSkip, WaitForUserInput,
         Log SkippingAuthentication, Goto ''https://example.com/''],
        Inr AuthenticationSkipped)
   \<and> Analyze \<notin> set (events_after (Act ''Click the Sign In button'')
         (fst (authenticateToWebsite (gated_site False ''skip'' True)
                 ''https://example.com/'' ''example.com'')))"
proof -
  have t: "trim (toLowerCase ''skip'') = ''skip''"
    by (simp add: toLowerCase_def trim_def trimStart_def trimEnd_def is_ws_def lower_char_def
        ascii_upper_letters_def ascii_lower_letters_def latin1_upper_letters_def
        latin1_lower_letters_def)
  have run: "authenticateToWebsite (gated_site False ''skip'' True) ''https://example.com/'' ''example.com''
     = ([AwaitActivePage, Goto ''https://example.com/'', Analyze, LookupCredentials ''example.com'',
         Log (ClickingLoginButton ''Click the Sign In button''), Act ''Click the Sign In button'',
         Log ClickFailed,
         Log (DebugUrl ''https://browserbase.com/sessions/session-1''),
         OpenDebugger (Some ''session-1''), Log PressEnterOrSkip, WaitForUserInput,
         Log SkippingAuthentication, Goto ''https://example.com/''],
        Inr AuthenticationSkipped)"
    by (simp add: run_defs gated_site_def t)
  show ?thesis by (simp add: run)
qed

text \<open>
  Claim C8, as amended. When the first analysis asks for login and names a non-empty
  login button, the click is attempted exactly once. If it succeeds, the orchestrator
  waits for the page to settle, runs the analyzer again and goes on to the automatic and
  manual login steps with the new analysis. If it fails, the failure is logged, the
  analyzer is not run again, and the orchestrator goes on to the same steps with the first
  analysis.
\<close>

theorem click_step:
  assumes "active_page W" and "goto_ok W FirstVisit"
    and "requiresAuth (analyze W FirstAnalysis)"
    and "loginButton (analyze W FirstAnalysis) = Some button" and "button \<noteq> []"
  shows "count_list (fst (click_login W (analyze W FirstAnalysis))) (Act button) = 1
       \<and> (act_ok W ClickLogin \<longrightarrow>
            authenticateToWebsite W url domain =
              emit [AwaitActivePage, Goto url, Analyze, LookupCredentials domain,
                    Log (ClickingLoginButton button), Act button, WaitForLoadState 5000, Analyze]
                (automatic_login W url (analyze W AfterClick)))
       \<and> (\<not> act_ok W ClickLogin \<longrightarrow>
            authenticateToWebsite W url domain =
              emit [AwaitActivePage, Goto url, Analyze, LookupCredentials domain,
                    Log (ClickingLoginButton button), Act button, Log ClickFailed]
                (automatic_login W url (analyze W FirstAnalysis)))"
  using assms by (simp add: authenticateToWebsite_def click_login_def emit_def)

theorem click_step_witness:
  "count_list (fst (click_login (gated_site False ''skip'' True)
        (analyze (gated_site False ''skip'' True) FirstAnalysis)))
      (Act ''Click the Sign In button'') = 1
   \<and> authenticateToWebsite (gated_site True ''skip'' True) ''https://example.com/'' ''example.com''
       = emit [AwaitActivePage, Goto ''https://example.com/'', Analyze,
               LookupCredentials ''example.com'',
               Log (ClickingLoginButton ''Click the Sign In button''),
               Act ''Click the Sign In button'', WaitForLoadState 5000, Analyze]
           (automatic_login (gated_site True ''skip'' True) ''https://example.com/''
              (analyze (gated_site True ''skip'' True) AfterClick))
   \<and> authenticateToWebsite (gated_site False ''skip'' True) ''https://example.com/'' ''example.com''
       = emit [AwaitActivePage, Goto ''https://example.com/'', Analyze,
               LookupCredentials ''example.com'',
               Log (ClickingLoginButton ''Click the Sign In button''),
               Act ''Click the Sign In button'', Log ClickFailed]
           (automatic_login (gated_site False ''skip'' True) ''https://example.com/''
              (analyze (gated_site False ''skip'' True) FirstAnalysis))"
proof -
  have pre: "active_page (gated_site c ''skip'' True)" "goto_ok (gated_site c ''skip'' True) FirstVisit"
    "requiresAuth (analyze (gated_site c ''skip'' True) FirstAnalysis)"
    "loginButton (analyze (gated_site c ''skip'' True) FirstAnalysis)
       = Some ''Click the Sign In button''"
    "''Click the Sign In button'' \<noteq> []" for c
    by (simp_all add: gated_site_def analyze_def analyzeAuthenticationState_def analysis_of_def)
  have ok: "act_ok (gated_site True ''skip'' True) ClickLogin"
    and ko: "\<not> act_ok (gated_site False ''skip'' True) ClickLogin"
    by (simp_all add: gated_site_def)
  note yes = click_step [where W = "gated_site True ''skip'' True"
      and button = "''Click the Sign In button''" and url = "''https://example.com/''"
      and domain = "''example.com''", OF pre]
  note no = click_step [where W = "gated_site False ''skip'' True"
      and button = "''Click the Sign In button''" and url = "''https://example.com/''"
      and domain = "''example.com''", OF pre]
  from yes no ok ko show ?thesis by blast
qed

text \<open>
  Claim C2. Once the orchestrator has awaited the operator's line, a line that is
  \<^verbatim>\<open>skip\<close> in any letter case with white space around it makes it navigate to the
  original URL and nothing more; the run does not end in \<open>AuthenticationIncomplete\<close>, and it
  returns normally as soon as that navigation succeeds (a navigation that fails raises
  its own error).
\<close>

theorem skip_returns_without_error:
  assumes "WaitForUserInput \<in> set (fst (authenticateToWebsite W url domain))"
    and "is_skip_input (user_input W)"
  shows "events_after WaitForUserInput (fst (authenticateToWebsite W url domain))
           = [Log SkippingAuthentication, Goto url]
       \<and> snd (authenticateToWebsite W url domain) \<noteq> Inl AuthenticationIncomplete
       \<and> (goto_ok W SkipReturn \<longrightarrow>
            snd (authenticateToWebsite W url domain) = Inr AuthenticationSkipped)"
  using manual_step_after_input [OF assms(1)] assms(2) by simp

theorem skip_returns_without_error_witness:
  "is_skip_input '' SKIP \<newline>''
   \<and> authenticateToWebsite (gated_site True '' SKIP \<newline>'' True) ''https://example.com/'' ''example.com''
     = ([AwaitActivePage, Goto ''https://example.com/'', Analyze, LookupCredentials ''example.com'',
         Log (ClickingLoginButton ''Click the Sign In button''), Act ''Click the Sign In button'',
         WaitForLoadState 5000, Analyze,
         Log (DebugUrl ''https://browserbase.com/sessions/session-1''),
         OpenDebugger (Some ''session-1''), Log PressEnterOrSkip, WaitForUserInput,
         Log SkippingAuthentication, Goto ''https://example.com/''],
        Inr AuthenticationSkipped)"
proof -
  have skip: "is_skip_input '' SKIP \<newline>''"
    unfolding is_skip_input_def
    by (rule exI [of _ "'' ''"], rule exI [of _ "''SKIP''"], rule exI [of _ "'' \<newline>''"])
       (simp add: is_ws_def ascii_lower_def ascii_upper_letters_def ascii_lower_letters_def)
  then have t: "trim (toLowerCase '' SKIP \<newline>'') = ''skip''"
    by (simp only: skip_input_iff)
  have run: "authenticateToWebsite (gated_site True '' SKIP \<newline>'' True) ''https://example.com/'' ''example.com''
     = ([AwaitActivePage, Goto ''https://example.com/'', Analyze, LookupCredentials ''example.com'',
         Log (ClickingLoginButton ''Click the Sign In button''), Act ''Click the Sign In button'',
         WaitForLoadState 5000, Analyze,
         Log (DebugUrl ''https://browserbase.com/sessions/session-1''),
         OpenDebugger (Some ''session-1''), Log PressEnterOrSkip, WaitForUserInput,
         Log SkippingAuthentication, Goto ''https://example.com/''],
        Inr AuthenticationSkipped)"
    by (simp add: authenticateToWebsite_def gated_site_def analyze_def
          analyzeAuthenticationState_def analysis_of_def click_login_def automatic_login_def
          manual_login_def getDebugUrl_def emit_def t)
  have w: "WaitForUserInput \<in> set (fst (authenticateToWebsite (gated_site True '' SKIP \<newline>'' True) ''https://example.com/'' ''example.com''))"
    by (simp add: run)
  have u: "is_skip_input (user_input (gated_site True '' SKIP \<newline>'' True))"
    using skip by (simp add: gated_site_def)
  from skip_returns_without_error [OF w u] skip run show ?thesis by simp
qed

text \<open>
  Claim C3. Once the orchestrator has awaited the operator's line and the line is not a
  skip, exactly one more analysis is run: if it reports that no login is required the
  function returns, and if it still asks for login the function fails with
  \<open>AuthenticationIncomplete\<close>; nothing is attempted after that analysis.
\<close>

theorem final_analysis_decides:
  assumes "WaitForUserInput \<in> set (fst (authenticateToWebsite W url domain))"
    and "\<not> is_skip_input (user_input W)"
  shows "(\<not> requiresAuth (analyze W AfterManual) \<longrightarrow>
            snd (authenticateToWebsite W url domain) = Inr ManualLoginDone
          \<and> events_after WaitForUserInput (fst (authenticateToWebsite W url domain))
              = [Analyze, Log AuthenticationConfirmed])
       \<and> (requiresAuth (analyze W AfterManual) \<longrightarrow>
            snd (authenticateToWebsite W url domain) = Inl AuthenticationIncomplete
          \<and> events_after WaitForUserInput (fst (authenticateToWebsite W url domain))
              = [Analyze])"
  using manual_step_after_input [OF assms(1)] assms(2) by simp

theorem final_analysis_decides_witness:
  "\<not> is_skip_input ''\<newline>''
   \<and> authenticateToWebsite (gated_site True ''\<newline>'' False) ''https://example.com/'' ''example.com''
     = ([AwaitActivePage, Goto ''https://example.com/'', Analyze, LookupCredentials ''example.com'',
         Log (ClickingLoginButton ''Click the Sign In button''), Act ''Click the Sign In button'',
         WaitForLoadState 5000, Analyze,
         Log (DebugUrl ''https://browserbase.com/sessions/session-1''),
         OpenDebugger (Some ''session-1''), Log PressEnterOrSkip, WaitForUserInput,
         Analyze, Log AuthenticationConfirmed],
        Inr ManualLoginDone)
   \<and> authenticateToWebsite (gated_site True ''\<newline>'' True) ''https://example.com/'' ''example.com''
     = ([AwaitActivePage, Goto ''https://example.com/'', Analyze, LookupCredentials ''example.com'',
         Log (ClickingLoginButton ''Click the Sign In button''), Act ''Click the Sign In button'',
         WaitForLoadState 5000, Analyze,
         Log (DebugUrl ''https://browserbase.com/sessions/session-1''),
         OpenDebugger (Some ''session-1''), Log PressEnterOrSkip, WaitForUserInput,
         Analyze],
        Inl AuthenticationIncomplete)"
proof -
  have t: "trim (toLowerCase ''\<newline>'') \<noteq> ''skip''"
    using enter_is_not_skip unfolding skip_input_iff .
  have run1: "authenticateToWebsite (gated_site True ''\<newline>'' False) ''https://example.com/'' ''example.com''
     = ([AwaitActivePage, Goto ''https://example.com/'', Analyze, LookupCredentials ''example.com'',
         Log (ClickingLoginButton ''Click the Sign In button''), Act ''Click the Sign In button'',
         WaitForLoadState 5000, Analyze,
         Log (DebugUrl ''https://browserbase.com/sessions/session-1''),
         OpenDebugger (Some ''session-1''), Log PressEnterOrSkip, WaitForUserInput,
         Analyze, Log AuthenticationConfirmed],
        Inr ManualLoginDone)"
    by (simp add: run_defs gated_site_def t)
  have run2: "authenticateToWebsite (gated_site True ''\<newline>'' True) ''https://example.com/'' ''example.com''
     = ([AwaitActivePage, Goto ''https://example.com/'', Analyze, LookupCredentials ''example.com'',
         Log (ClickingLoginButton ''Click the Sign In button''), Act ''Click the Sign In button'',
         WaitForLoadState 5000, Analyze,
         Log (DebugUrl ''https://browserbase.com/sessions/session-1''),
         OpenDebugger (Some ''session-1''), Log PressEnterOrSkip, WaitForUserInput,
         Analyze],
        Inl AuthenticationIncomplete)"
    by (simp add: run_defs gated_site_def t)
  have w1: "WaitForUserInput \<in> set (fst (authenticateToWebsite (gated_site True ''\<newline>'' False) ''https://example.com/'' ''example.com''))"
    by (simp add: run1)
  have w2: "WaitForUserInput \<in> set (fst (authenticateToWebsite (gated_site True ''\<newline>'' True) ''https://example.com/'' ''example.com''))"
    by (simp add: run2)
  have u1: "\<not> is_skip_input (user_input (gated_site True ''\<newline>'' False))"
    using enter_is_not_skip by (simp add: gated_site_def)
  have u2: "\<not> is_skip_input (user_input (gated_site True ''\<newline>'' True))"
    using enter_is_not_skip by (simp add: gated_site_def)
  from final_analysis_decides [OF w1 u1] final_analysis_decides [OF w2 u2]
    enter_is_not_skip run1 run2
  show ?thesis by simp
qed

section \<open>Properties of action discovery\<close>

lemma both_left_issues:
  "a = Inl e \<Longrightarrow> \<exists>es. both a b = Inl es \<and> set e \<subseteq> set es"
  by (auto simp: both_def split: sum.splits)

lemma both_right_issues:
  "b = Inl e \<Longrightarrow> \<exists>es. both a b = Inl es \<and> set e \<subseteq> set es"
  by (auto simp: both_def split: sum.splits)

lemma all_of_issues:
  "i < length rs \<Longrightarrow> rs ! i = Inl e \<Longrightarrow> \<exists>es. all_of rs = Inl es \<and> set e \<subseteq> set es"
proof (induction rs arbitrary: i)
  case Nil
  then show ?case by simp
next
  case (Cons r rs)
  show ?case
  proof (cases i)
    case 0
    with Cons.prems have "r = Inl e" by simp
    from both_left_issues [OF this, of "all_of rs"] show ?thesis by auto
  next
    case (Suc j)
    with Cons.prems have "j < length rs" "rs ! j = Inl e" by simp_all
    from Cons.IH [OF this] obtain es where "all_of rs = Inl es" "set e \<subseteq> set es" by blast
    with both_right_issues [of "all_of rs" es r] show ?thesis by auto
  qed
qed

lemma z_array_issues:
  assumes "i < length items" and "schema (p @ [Index i]) (Some (items ! i)) = Inl e"
  shows "\<exists>es. z_array schema p (Some (JArray items)) = Inl es \<and> set e \<subseteq> set es"
proof -
  let ?rs = "map (\<lambda>(i, item). schema (p @ [Index i]) (Some item)) (enumerate 0 items)"
  have "i < length ?rs" using assms(1) by simp
  moreover have "?rs ! i = Inl e" using assms by (simp add: nth_enumerate_eq)
  ultimately have "\<exists>es. all_of ?rs = Inl es \<and> set e \<subseteq> set es" by (rule all_of_issues)
  then show ?thesis by (simp add: z_array_def)
qed

lemma action_without_description:
  assumes "map_of props ''description'' = None"
  shows "\<exists>es. DiscoveredActionSchema p (Some (JObject props)) = Inl es
             \<and> p @ [Key ''description''] \<in> set es"
proof -
  have d: "z_string (p @ [Key ''description'']) (map_of props ''description'')
             = Inl [p @ [Key ''description'']]"
    using assms by (simp add: z_string_def)
  let ?rest = "both (z_array z_string (p @ [Key ''steps'']) (map_of props ''steps''))
                 (both (z_optional (z_array ParameterSchema) (p @ [Key ''parameters''])
                          (map_of props ''parameters''))
                       (z_optional z_record_any (p @ [Key ''extractionSchema''])
                          (map_of props ''extractionSchema'')))"
  from both_left_issues [OF d, of ?rest] obtain e1
    where 1: "both (z_string (p @ [Key ''description'']) (map_of props ''description'')) ?rest
                = Inl e1"
      and s1: "p @ [Key ''description''] \<in> set e1"
    by auto
  from both_right_issues [OF 1, of "z_string (p @ [Key ''name'']) (map_of props ''name'')"]
  obtain e2 where "both (z_string (p @ [Key ''name'']) (map_of props ''name''))
        (both (z_string (p @ [Key ''description'']) (map_of props ''description'')) ?rest)
      = Inl e2" and "set e1 \<subseteq> set e2"
    by auto
  with s1 show ?thesis by (auto simp: DiscoveredActionSchema_def)
qed

lemma two_actions_parsed:
  "JSON_parse two_actions_text =
     Some (JObject [(''actions'', JArray
       [JObject [(''name'', JString ''search''), (''description'', JString ''Search the site''),
                 (''steps'', JArray [JString ''Type {query}''])],
        JObject [(''name'', JString ''open''), (''steps'', JArray [])]])])"
  by code_simp

lemma two_actions_clean: "clean_response two_actions_text = two_actions_text"
  by code_simp

text \<open>
  Claim C1. Whatever \<^verbatim>\<open>JSON.parse\<close> is, when the cleaned response parses to an object
  whose \<^verbatim>\<open>actions\<close> array holds an object without \<^verbatim>\<open>description\<close>, \<^verbatim>\<open>discoverActions\<close>
  fails with \<open>SchemaValidationFailed\<close>, and the issues name the path of the missing
  field. The result is the error alone: no action is returned, however many of the other
  elements are of the schema's shape.
\<close>

theorem catalog_all_or_nothing:
  assumes "responseMessage \<noteq> []"
    and "parse (clean_response responseMessage) = Some (JObject props)"
    and "map_of props ''actions'' = Some (JArray items)"
    and "i < length items" and "items ! i = JObject item"
    and "map_of item ''description'' = None"
  shows "\<exists>issues.
           discoverActions parse (AgentReturns (ResultObject (Some responseMessage)))
             = Inl (SchemaValidationFailed issues)
         \<and> [Key ''actions'', Index i, Key ''description''] \<in> set issues"
proof -
  from action_without_description [OF assms(6), of "[Key ''actions'', Index i]"]
  obtain e where "DiscoveredActionSchema ([Key ''actions''] @ [Index i]) (Some (items ! i)) = Inl e"
    and e: "[Key ''actions'', Index i, Key ''description''] \<in> set e"
    using assms(5) by auto
  from z_array_issues [where schema = DiscoveredActionSchema and p = "[Key ''actions'']",
      OF assms(4) this(1)] obtain es
    where "z_array DiscoveredActionSchema [Key ''actions''] (Some (JArray items)) = Inl es"
      and "set e \<subseteq> set es"
    by blast
  with e assms(1,2,3) show ?thesis
    by (auto simp: discoverActions_def DiscoveredActionsResponseSchema_def)
qed

theorem catalog_all_or_nothing_witness:
  "two_actions_text \<noteq> []
   \<and> JSON_parse (clean_response two_actions_text) =
       Some (JObject [(''actions'', JArray
         [JObject [(''name'', JString ''search''), (''description'', JString ''Search the site''),
                   (''steps'', JArray [JString ''Type {query}''])],
          JObject [(''name'', JString ''open''), (''steps'', JArray [])]])])
   \<and> (\<exists>issues.
         discoverActions JSON_parse (AgentReturns (ResultObject (Some two_actions_text)))
           = Inl (SchemaValidationFailed issues)
       \<and> [Key ''actions'', Index 1, Key ''description''] \<in> set issues)"
proof -
  have ne: "two_actions_text \<noteq> []" by (simp add: two_actions_text_def)
  have p: "JSON_parse (clean_response two_actions_text) =
       Some (JObject [(''actions'', JArray
         [JObject [(''name'', JString ''search''), (''description'', JString ''Search the site''),
                   (''steps'', JArray [JString ''Type {query}''])],
          JObject [(''name'', JString ''open''), (''steps'', JArray [])]])])"
    by (simp only: two_actions_clean two_actions_parsed)
  from catalog_all_or_nothing [where parse = JSON_parse and i = 1, OF ne p] ne p
  show ?thesis by simp
qed

lemma trim_ends:
  assumes "trim s \<noteq> []"
  shows "\<not> is_ws (hd (trim s))" and "\<not> is_ws (last (trim s))"
proof -
  let ?b = "dropWhile is_ws s"
  let ?d = "dropWhile is_ws (rev ?b)"
  have t: "trim s = rev ?d" by (simp add: trim_def trimEnd_def trimStart_def)
  with assms have d: "?d \<noteq> []" by simp
  then have "\<not> is_ws (hd ?d)" by (rule hd_dropWhile)
  then show "\<not> is_ws (last (trim s))" using d by (simp add: t last_rev)
  have b: "?b \<noteq> []"
  proof
    assume "?b = []"
    then have "?d = []" by (simp only: rev.simps(1) dropWhile.simps(1))
    with d show False by (simp only: not_True_eq_False simp_thms)
  qed
  have "rev ?b = takeWhile is_ws (rev ?b) @ ?d" by simp
  then have "last (rev ?b) = last ?d" using d by (metis last_appendR)
  then have "last ?d = hd ?b" using b by (simp add: last_rev)
  moreover have "\<not> is_ws (hd ?b)" using b by (rule hd_dropWhile)
  ultimately show "\<not> is_ws (hd (trim s))" using d by (simp add: t hd_rev)
qed

lemma trim_trim: "trim (trim s) = trim s"
proof (cases "trim s = []")
  case True
  have "trim [] = []" by (simp add: trim_def trimEnd_def trimStart_def)
  with True show ?thesis by simp
next
  case False
  from trim_core [of "[]" "[]" "trim s"] trim_ends [OF False] False show ?thesis by simp
qed

lemma ascii_lower_fence_char: "ascii_lower c = CHR 0x60 \<longleftrightarrow> c = CHR 0x60"
proof (cases "map_of (zip ascii_upper_letters ascii_lower_letters) c")
  case None
  then show ?thesis by (simp add: ascii_lower_def)
next
  case (Some d)
  then have "d \<in> set ascii_lower_letters" by (rule ascii_table_range)
  then have "d \<noteq> CHR 0x60" by (auto simp: ascii_lower_letters_def)
  moreover have "c \<noteq> CHR 0x60"
    using Some by (auto simp: ascii_upper_letters_def ascii_lower_letters_def split: if_splits)
  ultimately show ?thesis using Some by (simp add: ascii_lower_def)
qed

lemma map_lower_fence: "map ascii_lower w = fence \<Longrightarrow> w = fence"
  by (auto simp: fence_def map_eq_Cons_conv ascii_lower_fence_char)

lemma fence_lower: "map ascii_lower fence = fence"
  by (simp add: fence_def ascii_lower_fence_char)

lemma matches_fence_prefix:
  assumes "matches_here (fence @ p) s"
  shows "prefix fence s"
proof -
  from assms obtain w r where s: "s = w @ r"
    and m: "map ascii_lower w = fence @ map ascii_lower p"
    unfolding matches_here_iff by (auto simp: fence_lower)
  from map_eq_appendD [OF m] obtain w1 w2 where "w = w1 @ w2" "map ascii_lower w1 = fence"
    by blast
  with s map_lower_fence [of w1] show ?thesis by (simp add: prefix_def)
qed

lemma fence_not_ws: "c \<in> set fence \<Longrightarrow> \<not> is_ws c"
  by (auto simp: fence_def is_ws_def)

lemma dropWhile_ws_fence: "list_all is_ws pre \<Longrightarrow> dropWhile is_ws (pre @ fence) = fence"
  by (induction pre) (simp_all add: fence_def is_ws_def)

lemma dropWhile_ws_core:
  "list_all is_ws pre \<Longrightarrow> m \<noteq> [] \<Longrightarrow> \<not> is_ws (hd m) \<Longrightarrow> dropWhile is_ws (pre @ m @ r) = m @ r"
  by (induction pre) (auto simp: neq_Nil_conv)

lemma clean_bare:
  assumes "\<not> prefix fence (trim s)" and "\<not> suffix fence (trim s)"
  shows "clean_response s = trim s"
proof -
  have "\<not> matches_here (fence @ ''json'') (trim s)"
    using assms(1) matches_fence_prefix by blast
  then have "strip_json_fence (trim s) = trim s" by (simp add: strip_json_fence_def)
  moreover have "strip_open_fence (trim s) = trim s"
    using assms(1) by (simp add: strip_open_fence_def)
  moreover have "strip_close_fence (trim s) = trim s"
    using assms(2) by (simp add: strip_close_fence_def)
  ultimately show ?thesis by (simp add: clean_response_def trim_trim)
qed

lemma trim_fenced: "trim (fenced tag s) = fenced tag s"
proof -
  have "trim ([] @ fenced tag s @ []) = fenced tag s"
  proof (rule trim_core)
    show "fenced tag s \<noteq> []" by (simp add: fenced_def fence_def)
    show "\<not> is_ws (hd (fenced tag s))" by (simp add: fenced_def fence_def is_ws_def)
    show "\<not> is_ws (last (fenced tag s))" by (simp add: fenced_def fence_def is_ws_def)
  qed simp_all
  then show ?thesis by simp
qed

lemma open_fenced:
  assumes "tag = [] \<or> map ascii_lower tag = ''json''"
  shows "strip_json_fence (fenced tag s) = dropWhile is_ws (s @ ''\<newline>'' @ fence)
           \<and> tag \<noteq> []
       \<or> strip_json_fence (fenced tag s) = fenced tag s
           \<and> strip_open_fence (fenced tag s) = dropWhile is_ws (s @ ''\<newline>'' @ fence)
           \<and> tag = []"
proof (cases "tag = []")
  case True
  have "\<not> matches_here (fence @ ''json'') (fenced [] s)"
    by (simp add: fenced_def fence_def ascii_lower_def ascii_upper_letters_def
          ascii_lower_letters_def)
  then have 1: "strip_json_fence (fenced [] s) = fenced [] s"
    by (simp add: strip_json_fence_def)
  have "prefix fence (fenced [] s)" by (simp add: fenced_def)
  moreover have "drop (length fence) (fenced [] s) = ''\<newline>'' @ s @ ''\<newline>'' @ fence"
    by (simp add: fenced_def)
  ultimately have "strip_open_fence (fenced [] s) = dropWhile is_ws (s @ ''\<newline>'' @ fence)"
    by (simp add: strip_open_fence_def is_ws_def)
  with 1 True show ?thesis by simp
next
  case False
  with assms have tag: "map ascii_lower tag = ''json''" by simp
  then have "length (map ascii_lower tag) = length ''json''" by (simp only:)
  then have len: "length tag = 4" by simp
  have "map ascii_lower (fence @ tag) = map ascii_lower (fence @ ''json'')"
    using tag by (simp add: ascii_lower_def ascii_upper_letters_def ascii_lower_letters_def)
  then have "matches_here (fence @ ''json'') (fenced tag s)"
    unfolding matches_here_iff fenced_def
    by (intro exI [of _ "fence @ tag"] exI [of _ "''\<newline>'' @ s @ ''\<newline>'' @ fence"]) simp
  moreover have "drop (length (fence @ ''json'')) (fenced tag s)
      = ''\<newline>'' @ s @ ''\<newline>'' @ fence"
    using len by (simp add: fenced_def fence_def)
  ultimately have "strip_json_fence (fenced tag s) = dropWhile is_ws (s @ ''\<newline>'' @ fence)"
    by (simp add: strip_json_fence_def is_ws_def)
  with False show ?thesis by simp
qed

lemma trim_empty_all_ws: "trim s = [] \<Longrightarrow> list_all is_ws s"
proof -
  assume e: "trim s = []"
  from trim_decompose [of s] obtain pre post where "s = pre @ trim s @ post"
    and "list_all is_ws pre" and "list_all is_ws post" by blast
  then show ?thesis by (simp add: e)
qed

lemma not_prefix_fence_ws:
  assumes "\<not> prefix fence t" and "is_ws w"
  shows "\<not> prefix fence (t @ w # r)"
proof
  assume "prefix fence (t @ w # r)"
  then obtain us where us: "fence = t @ us" "prefix us (w # r)"
    using assms(1) by (auto simp: prefix_append)
  have "us \<noteq> []"
  proof
    assume "us = []"
    with us(1) have "prefix fence t" by simp
    with assms(1) show False by simp
  qed
  with us(2) obtain vs where "us = w # vs" by (cases us) auto
  with us(1) have "set fence = set (t @ w # vs)" by (simp only:)
  then have "w \<in> set fence" by simp
  with assms(2) fence_not_ws show False by blast
qed

lemma close_tail:
  assumes "list_all is_ws post" and "t \<noteq> []" and "\<not> is_ws (last t)"
  shows "strip_close_fence (t @ post @ ''\<newline>'' @ fence) = t"
proof -
  have "suffix fence (t @ post @ ''\<newline>'' @ fence)"
    by (simp add: suffix_def)
  moreover have "take (length (t @ post @ ''\<newline>'' @ fence) - length fence)
                   (t @ post @ ''\<newline>'' @ fence) = t @ (post @ ''\<newline>'')"
    by simp
  moreover have "trimEnd (t @ (post @ ''\<newline>'')) = trimEnd t"
    by (rule trimEnd_append_ws) (use assms(1) in \<open>simp add: is_ws_def\<close>)
  moreover have "trimEnd t = t"
  proof -
    from assms(2) obtain ds d where "t = ds @ [d]" by (cases t rule: rev_cases) auto
    with assms(3) show ?thesis by (simp add: trimEnd_def)
  qed
  ultimately show ?thesis by (simp only: strip_close_fence_def if_True)
qed

lemma fence_edge_cases:
  "strip_open_fence fence = []" "strip_close_fence fence = []" "strip_close_fence [] = []"
  "trim [] = []"
  by (simp_all add: strip_open_fence_def strip_close_fence_def trimEnd_def trim_def
        trimStart_def fence_def)

lemma clean_fenced:
  assumes tag: "tag = [] \<or> map ascii_lower tag = ''json''"
    and np: "\<not> prefix fence (trim s)"
  shows "clean_response (fenced tag s) = trim s"
proof -
  let ?X = "dropWhile is_ws (s @ ''\<newline>'' @ fence)"
  have X: "trim (strip_close_fence (strip_open_fence ?X)) = trim s
         \<and> trim (strip_close_fence ?X) = trim s"
  proof (cases "trim s = []")
    case True
    then have "list_all is_ws (s @ ''\<newline>'')"
      using trim_empty_all_ws [of s] by (simp add: is_ws_def)
    then have "dropWhile is_ws ((s @ ''\<newline>'') @ fence) = fence"
      by (rule dropWhile_ws_fence)
    then have "?X = fence" by simp
    then show ?thesis by (simp add: fence_edge_cases True)
  next
    case False
    from trim_decompose [of s] obtain pre post where s: "s = pre @ trim s @ post"
      and pre: "list_all is_ws pre" and post: "list_all is_ws post" by blast
    note ends = trim_ends [OF False]
    have "s @ ''\<newline>'' @ fence = pre @ trim s @ (post @ ''\<newline>'' @ fence)"
      using s by (metis append.assoc)
    then have "?X = dropWhile is_ws (pre @ trim s @ (post @ ''\<newline>'' @ fence))"
      by (simp only:)
    also have "\<dots> = trim s @ (post @ ''\<newline>'' @ fence)"
      using pre False ends(1) by (rule dropWhile_ws_core)
    finally have Xeq: "?X = trim s @ post @ ''\<newline>'' @ fence" .
    have "\<exists>w r. post @ ''\<newline>'' @ fence = w # r \<and> is_ws w"
      using post by (cases post) (simp_all add: is_ws_def)
    then obtain w r where wr: "post @ ''\<newline>'' @ fence = w # r" "is_ws w" by blast
    have "\<not> prefix fence (trim s @ w # r)" using np wr(2) by (rule not_prefix_fence_ws)
    then have "\<not> prefix fence ?X" unfolding Xeq wr(1) .
    then have open_id: "strip_open_fence ?X = ?X" by (simp add: strip_open_fence_def)
    have "strip_close_fence (trim s @ post @ ''\<newline>'' @ fence) = trim s"
      using post False ends(2) by (rule close_tail)
    then have "strip_close_fence ?X = trim s" by (simp only: Xeq)
    with open_id show ?thesis by (simp add: trim_trim)
  qed
  from open_fenced [OF tag, of s] X show ?thesis
    by (auto simp: clean_response_def trim_fenced)
qed

lemma bare_catalog_run:
  "discoverActions JSON_parse (AgentReturns (ResultObject (Some empty_catalog_text))) = Inr []"
  by code_simp

text \<open>
  Claim C6 as stated covers every language tag. With the tag \<^verbatim>\<open>js\<close> the first pattern
  does not match, the second removes the marker alone, and the tag stays in front of the
  payload: the text no longer parses, while the bare payload gives the empty catalog.
\<close>

theorem other_language_tag_kept:
  "discoverActions JSON_parse
     (AgentReturns (ResultObject (Some (fenced ''js'' empty_catalog_text))))
     = Inl MalformedDiscoveryResponse
   \<and> discoverActions JSON_parse (AgentReturns (ResultObject (Some empty_catalog_text)))
     = Inr []
   \<and> clean_response (fenced ''js'' empty_catalog_text) = ''js\<newline>'' @ empty_catalog_text"
proof -
  have "discoverActions JSON_parse
     (AgentReturns (ResultObject (Some (fenced ''js'' empty_catalog_text))))
     = Inl MalformedDiscoveryResponse"
    by code_simp
  moreover have "clean_response (fenced ''js'' empty_catalog_text)
      = ''js\<newline>'' @ empty_catalog_text"
    by code_simp
  ultimately show ?thesis using bare_catalog_run by simp
qed

text \<open>
  Claim C6, as amended. For a fence without a language tag or with the tag \<^verbatim>\<open>json\<close> in
  any letter case, and a non-empty payload that, once trimmed, neither starts nor ends
  with a fence marker (no JSON text does), the fenced response is processed exactly as the
  bare payload, whatever \<^verbatim>\<open>JSON.parse\<close> is.
\<close>

theorem fence_stripping:
  assumes "tag = [] \<or> map ascii_lower tag = ''json''" and "s \<noteq> []"
    and "\<not> prefix fence (trim s)" and "\<not> suffix fence (trim s)"
  shows "discoverActions parse (AgentReturns (ResultObject (Some (fenced tag s))))
           = discoverActions parse (AgentReturns (ResultObject (Some s)))"
proof -
  have "clean_response (fenced tag s) = clean_response s"
    using clean_fenced [OF assms(1,3)] clean_bare [OF assms(3,4)] by simp
  moreover have "fenced tag s \<noteq> []" by (simp add: fenced_def fence_def)
  ultimately show ?thesis using assms(2) by (simp add: discoverActions_def)
qed

theorem fence_stripping_witness:
  "empty_catalog_text \<noteq> []
   \<and> \<not> prefix fence (trim empty_catalog_text) \<and> \<not> suffix fence (trim empty_catalog_text)
   \<and> discoverActions JSON_parse
        (AgentReturns (ResultObject (Some (fenced ''json'' empty_catalog_text)))) = Inr []
   \<and> discoverActions JSON_parse
        (AgentReturns (ResultObject (Some (fenced ''JSON'' empty_catalog_text)))) = Inr []
   \<and> discoverActions JSON_parse
        (AgentReturns (ResultObject (Some (fenced [] empty_catalog_text)))) = Inr []"
proof -
  have ne: "empty_catalog_text \<noteq> []" by (simp add: empty_catalog_text_def)
  have np: "\<not> prefix fence (trim empty_catalog_text)" by code_simp
  have ns: "\<not> suffix fence (trim empty_catalog_text)" by code_simp
  have t1: "[] = [] \<or> map ascii_lower [] = ''json''" by simp
  have t2: "''json'' = [] \<or> map ascii_lower ''json'' = ''json''" by code_simp
  have t3: "''JSON'' = [] \<or> map ascii_lower ''JSON'' = ''json''" by code_simp
  from fence_stripping [OF t1 ne np ns, of JSON_parse]
       fence_stripping [OF t2 ne np ns, of JSON_parse]
       fence_stripping [OF t3 ne np ns, of JSON_parse]
       bare_catalog_run ne np ns
  show ?thesis by simp
qed

section \<open>Properties of URL normalization\<close>

lemma scan_https: "scan_scheme (''https://'' @ r) = Some (''https'', ''//'' @ r)"
  by (simp add: scan_scheme_def is_ascii_alpha_def is_scheme_char_def is_digit_def
      ascii_upper_letters_def ascii_lower_letters_def ascii_lower_def)

lemma scan_http: "scan_scheme (''http://'' @ r) = Some (''http'', ''//'' @ r)"
  by (simp add: scan_scheme_def is_ascii_alpha_def is_scheme_char_def is_digit_def
      ascii_upper_letters_def ascii_lower_letters_def ascii_lower_def)

lemma strip_keeps_prefix:
  assumes "prefix p s" and "p \<noteq> []"
    and "\<not> is_c0_or_space (hd p)" and "\<not> is_c0_or_space (last p)"
  shows "prefix p (strip_c0_or_space s)"
proof -
  from assms(1) obtain r where s: "s = p @ r" by (auto simp: prefix_def)
  from assms(2) obtain c cs where p1: "p = c # cs" by (cases p) auto
  from assms(2) obtain ds d where p2: "p = ds @ [d]" by (cases p rule: rev_cases) auto
  have 1: "dropWhile is_c0_or_space s = p @ r"
    using assms(3) by (simp add: s p1)
  have "\<exists>z. dropWhile is_c0_or_space (rev r @ rev p) = z @ rev p"
  proof (cases "\<forall>x \<in> set (rev r). is_c0_or_space x")
    case True
    then have "dropWhile is_c0_or_space (rev r @ rev p) = dropWhile is_c0_or_space (rev p)"
      by (simp add: dropWhile_append)
    also have "\<dots> = rev p" using assms(4) by (simp add: p2)
    finally show ?thesis by simp
  next
    case False
    then have "dropWhile is_c0_or_space (rev r @ rev p)
        = dropWhile is_c0_or_space (rev r) @ rev p"
      by (auto simp: dropWhile_append)
    then show ?thesis by blast
  qed
  then obtain z where "dropWhile is_c0_or_space (rev (p @ r)) = z @ rev p" by auto
  then have "strip_c0_or_space s = p @ rev z"
    by (simp add: strip_c0_or_space_def 1)
  then show ?thesis by simp
qed

lemma filter_keeps_prefix:
  assumes "prefix p s" and "\<forall>c \<in> set p. \<not> is_tab_or_newline c"
  shows "prefix p (filter (\<lambda>c. \<not> is_tab_or_newline c) s)"
proof -
  from assms(1) obtain r where "s = p @ r" by (auto simp: prefix_def)
  moreover have "filter (\<lambda>c. \<not> is_tab_or_newline c) p = p"
    using assms(2) by (simp add: filter_id_conv)
  ultimately show ?thesis by simp
qed

lemma https_prefix_facts:
  "''https://'' \<noteq> []" "\<not> is_c0_or_space (hd ''https://'')"
  "\<not> is_c0_or_space (last ''https://'')" "\<forall>c \<in> set ''https://''. \<not> is_tab_or_newline c"
  by (simp_all add: is_c0_or_space_def c0_controls_def is_tab_or_newline_def)

lemma http_prefix_facts:
  "''http://'' \<noteq> []" "\<not> is_c0_or_space (hd ''http://'')"
  "\<not> is_c0_or_space (last ''http://'')" "\<forall>c \<in> set ''http://''. \<not> is_tab_or_newline c"
  by (simp_all add: is_c0_or_space_def c0_controls_def is_tab_or_newline_def)

lemma new_URL_https:
  assumes "prefix ''https://'' s" and "new_URL P s = Some u"
  shows "scheme u = ''https'' \<and> (\<exists>x. P ''https'' x = Some (rest u))"
proof -
  have "prefix ''https://'' (strip_c0_or_space s)"
    using assms(1) https_prefix_facts(1-3) by (rule strip_keeps_prefix)
  then have "prefix ''https://'' (filter (\<lambda>c. \<not> is_tab_or_newline c) (strip_c0_or_space s))"
    using https_prefix_facts(4) by (rule filter_keeps_prefix)
  then obtain r where "filter (\<lambda>c. \<not> is_tab_or_newline c) (strip_c0_or_space s)
      = ''https://'' @ r"
    by (auto simp: prefix_def)
  then have "new_URL P s = (case P ''https'' (''//'' @ r) of None \<Rightarrow> None
      | Some x \<Rightarrow> Some \<lparr>scheme = ''https'', rest = x\<rparr>)"
    by (simp only: new_URL_def scan_https option.case prod.case)
  with assms(2) show ?thesis by (auto split: option.splits)
qed

lemma new_URL_http:
  assumes "prefix ''http://'' s" and "new_URL P s = Some u"
  shows "scheme u = ''http'' \<and> (\<exists>x. P ''http'' x = Some (rest u))"
proof -
  have "prefix ''http://'' (strip_c0_or_space s)"
    using assms(1) http_prefix_facts(1-3) by (rule strip_keeps_prefix)
  then have "prefix ''http://'' (filter (\<lambda>c. \<not> is_tab_or_newline c) (strip_c0_or_space s))"
    using http_prefix_facts(4) by (rule filter_keeps_prefix)
  then obtain r where "filter (\<lambda>c. \<not> is_tab_or_newline c) (strip_c0_or_space s)
      = ''http://'' @ r"
    by (auto simp: prefix_def)
  then have "new_URL P s = (case P ''http'' (''//'' @ r) of None \<Rightarrow> None
      | Some x \<Rightarrow> Some \<lparr>scheme = ''http'', rest = x\<rparr>)"
    by (simp only: new_URL_def scan_http option.case prod.case)
  with assms(2) show ?thesis by (auto split: option.splits)
qed

lemma normalizeUrl_cases:
  "normalizeUrl P input =
     (if prefix ''http://'' (trim input) \<or> prefix ''https://'' (trim input)
      then (case new_URL P (trim input) of None \<Rightarrow> Inl InvalidUrlFormat | Some u \<Rightarrow> Inr u)
      else (case new_URL P (''https://'' @ trim input) of
              None \<Rightarrow> Inl InvalidUrlFormatWithHint | Some u \<Rightarrow> Inr u))"
  by (simp add: normalizeUrl_def startsWith_def Let_def)

lemma normalizeUrl_scheme:
  assumes "normalizeUrl P input = Inr u"
  shows "(if prefix ''http://'' (trim input) then scheme u = ''http'' else scheme u = ''https'')
       \<and> (\<exists>x. P (scheme u) x = Some (rest u))"
proof (cases "prefix ''http://'' (trim input)")
  case True
  with assms have "new_URL P (trim input) = Some u"
    by (simp add: normalizeUrl_cases split: option.splits)
  from new_URL_http [OF True this] True show ?thesis by auto
next
  case False
  show ?thesis
  proof (cases "prefix ''https://'' (trim input)")
    case True
    with assms have "new_URL P (trim input) = Some u"
      by (simp add: normalizeUrl_cases split: option.splits)
    from new_URL_https [OF True this] False show ?thesis by auto
  next
    case no: False
    with False assms have "new_URL P (''https://'' @ trim input) = Some u"
      by (simp add: normalizeUrl_cases split: option.splits)
    moreover have "prefix ''https://'' (''https://'' @ trim input)" by simp
    ultimately show ?thesis using new_URL_https False by (metis (full_types))
  qed
qed

text \<open>
  Claim C10. The scheme detection of \<^verbatim>\<open>normalizeUrl\<close> is a literal, case-sensitive prefix
  test on the trimmed input. An input that starts with the lower-case \<^verbatim>\<open>http://\<close> or
  \<^verbatim>\<open>https://\<close> is parsed as it is; every other input (an upper-case \<^verbatim>\<open>HTTP://\<close> among
  them) is parsed with \<^verbatim>\<open>https://\<close> in front of it. Whenever \<^verbatim>\<open>normalizeUrl\<close> succeeds,
  the protocol of the result is \<^verbatim>\<open>http:\<close> if the trimmed input starts with the lower-case
  \<^verbatim>\<open>http://\<close>, and \<^verbatim>\<open>https:\<close> otherwise. This holds whatever parses the part after the
  scheme.
\<close>

theorem scheme_detection_is_literal:
  "(prefix ''http://'' (trim input) \<or> prefix ''https://'' (trim input) \<longrightarrow>
      normalizeUrl P input =
        (case new_URL P (trim input) of None \<Rightarrow> Inl InvalidUrlFormat | Some u \<Rightarrow> Inr u))
   \<and> (\<not> prefix ''http://'' (trim input) \<and> \<not> prefix ''https://'' (trim input) \<longrightarrow>
        normalizeUrl P input =
          (case new_URL P (''https://'' @ trim input) of
             None \<Rightarrow> Inl InvalidUrlFormatWithHint
           | Some u \<Rightarrow> Inr u))
   \<and> (normalizeUrl P input = Inr u \<longrightarrow>
        protocol u = (if prefix ''http://'' (trim input) then ''http:'' else ''https:''))"
  using normalizeUrl_scheme [of P input u]
  by (auto simp: normalizeUrl_cases protocol_def)

theorem scheme_detection_is_literal_witness:
  "normalizeUrl keep_rest ''HTTP://example.com''
       = Inr \<lparr>scheme = ''https'', rest = ''//HTTP://example.com''\<rparr>
   \<and> normalizeUrl keep_rest '' http://example.com''
       = Inr \<lparr>scheme = ''http'', rest = ''//example.com''\<rparr>
   \<and> normalizeUrl keep_rest ''https://example.com''
       = Inr \<lparr>scheme = ''https'', rest = ''//example.com''\<rparr>
   \<and> normalizeUrl keep_rest ''example.com''
       = Inr \<lparr>scheme = ''https'', rest = ''//example.com''\<rparr>
   \<and> protocol \<lparr>scheme = ''https'', rest = ''//HTTP://example.com''\<rparr> = ''https:''
   \<and> protocol \<lparr>scheme = ''http'', rest = ''//example.com''\<rparr> = ''http:''"
proof -
  have t: "trim ''HTTP://example.com'' = ''HTTP://example.com''"
    "trim '' http://example.com'' = ''http://example.com''"
    "trim ''https://example.com'' = ''https://example.com''"
    "trim ''example.com'' = ''example.com''"
    by code_simp+
  have n: "new_URL keep_rest ''https://HTTP://example.com''
      = Some \<lparr>scheme = ''https'', rest = ''//HTTP://example.com''\<rparr>"
    "new_URL keep_rest ''http://example.com''
      = Some \<lparr>scheme = ''http'', rest = ''//example.com''\<rparr>"
    "new_URL keep_rest ''https://example.com''
      = Some \<lparr>scheme = ''https'', rest = ''//example.com''\<rparr>"
    by code_simp+
  from scheme_detection_is_literal [of "''HTTP://example.com''" keep_rest
      "\<lparr>scheme = ''https'', rest = ''//HTTP://example.com''\<rparr>"]
    scheme_detection_is_literal [of "'' http://example.com''" keep_rest
      "\<lparr>scheme = ''http'', rest = ''//example.com''\<rparr>"]
    scheme_detection_is_literal [of "''https://example.com''" keep_rest
      "\<lparr>scheme = ''https'', rest = ''//example.com''\<rparr>"]
    scheme_detection_is_literal [of "''example.com''" keep_rest
      "\<lparr>scheme = ''https'', rest = ''//example.com''\<rparr>"]
  show ?thesis by (simp add: t n)
qed

lemma dropWhile_none: "\<forall>c \<in> set s. \<not> P c \<Longrightarrow> dropWhile P s = s"
  by (cases s) auto

lemma trim_no_ws: "\<forall>c \<in> set s. \<not> is_ws c \<Longrightarrow> trim s = s"
  by (simp add: trim_def trimStart_def trimEnd_def dropWhile_none)

lemma strip_no_c0: "\<forall>c \<in> set s. \<not> is_c0_or_space c \<Longrightarrow> strip_c0_or_space s = s"
  by (simp add: strip_c0_or_space_def dropWhile_none)

lemma tab_is_c0: "is_tab_or_newline c \<Longrightarrow> is_c0_or_space c"
  by (auto simp: is_tab_or_newline_def is_c0_or_space_def c0_controls_def)

lemma filter_no_c0:
  "\<forall>c \<in> set s. \<not> is_c0_or_space c \<Longrightarrow> filter (\<lambda>c. \<not> is_tab_or_newline c) s = s"
  using tab_is_c0 by (auto simp: filter_id_conv)

lemma scheme_chars_plain:
  "\<forall>c \<in> set ''https:''. \<not> is_ws c \<and> \<not> is_c0_or_space c"
  "\<forall>c \<in> set ''http:''. \<not> is_ws c \<and> \<not> is_c0_or_space c"
  by (simp_all add: is_ws_def is_c0_or_space_def c0_controls_def)

lemma reparse:
  assumes ok: "url_library_ok P S"
    and sch: "sch = ''http'' \<or> sch = ''https''"
    and p: "P sch x = Some r"
  shows "normalizeUrl P (href S \<lparr>scheme = sch, rest = r\<rparr>) = Inr \<lparr>scheme = sch, rest = r\<rparr>"
proof -
  from ok sch p have rt: "P sch (S sch r) = Some r"
    and sl: "prefix ''//'' (S sch r)"
    and ch: "\<forall>c \<in> set (S sch r). \<not> is_ws c \<and> \<not> is_c0_or_space c"
    unfolding url_library_ok_def by blast+
  from sl obtain tail where tail: "S sch r = ''//'' @ tail" by (auto simp: prefix_def)
  have scan: "scan_scheme (sch @ '':'' @ ''//'' @ tail) = Some (sch, ''//'' @ tail)"
    using sch scan_http [of tail] scan_https [of tail] by auto
  have pre: "prefix ''http://'' (sch @ '':'' @ ''//'' @ tail)
           \<or> prefix ''https://'' (sch @ '':'' @ ''//'' @ tail)"
    using sch by auto
  let ?h = "href S \<lparr>scheme = sch, rest = r\<rparr>"
  have h: "?h = sch @ '':'' @ ''//'' @ tail" by (simp add: href_def tail)
  have "\<forall>c \<in> set (sch @ '':''). \<not> is_ws c \<and> \<not> is_c0_or_space c"
    using sch scheme_chars_plain by auto
  with ch have chars: "\<forall>c \<in> set ?h. \<not> is_ws c \<and> \<not> is_c0_or_space c"
    by (auto simp: href_def)
  then have t: "trim ?h = ?h" and st: "strip_c0_or_space ?h = ?h"
    and fl: "filter (\<lambda>c. \<not> is_tab_or_newline c) ?h = ?h"
    by (simp_all add: trim_no_ws strip_no_c0 filter_no_c0)
  have "new_URL P ?h = (case scan_scheme ?h of None \<Rightarrow> None
      | Some (sch, r) \<Rightarrow> (case P sch r of None \<Rightarrow> None
          | Some x \<Rightarrow> Some \<lparr>scheme = sch, rest = x\<rparr>))"
    unfolding new_URL_def st fl ..
  also have "\<dots> = (case P sch (''//'' @ tail) of None \<Rightarrow> None
          | Some x \<Rightarrow> Some \<lparr>scheme = sch, rest = x\<rparr>)"
    by (simp only: h scan option.case prod.case)
  also have "\<dots> = Some \<lparr>scheme = sch, rest = r\<rparr>"
    using rt by (simp only: tail option.case)
  finally have n: "new_URL P ?h = Some \<lparr>scheme = sch, rest = r\<rparr>" .
  from pre have "prefix ''http://'' ?h \<or> prefix ''https://'' ?h"
    by (simp only: h)
  then have "prefix ''http://'' (trim ?h) \<or> prefix ''https://'' (trim ?h)"
    by (simp only: t)
  with n show ?thesis by (simp only: normalizeUrl_cases t if_True option.case)
qed

lemma host_char_plain: "is_host_char c \<Longrightarrow> \<not> is_ws c \<and> \<not> is_c0_or_space c"
  by (auto simp: is_host_char_def ascii_lower_letters_def is_ws_def is_c0_or_space_def
        c0_controls_def)

lemma path_char_plain: "is_path_char c \<Longrightarrow> \<not> is_ws c \<and> \<not> is_c0_or_space c"
  by (auto simp: is_path_char_def ascii_lower_letters_def is_ws_def is_c0_or_space_def
        c0_controls_def)

lemma slash_not_host: "\<not> is_host_char (CHR ''/'')"
  by (simp add: is_host_char_def ascii_lower_letters_def)

lemma plain_rest_shape:
  assumes "plain_rest sch x = Some r"
  shows "\<exists>host path. r = ''//'' @ host @ CHR ''/'' # path \<and> host \<noteq> []
           \<and> list_all is_host_char host \<and> list_all is_path_char (CHR ''/'' # path)"
proof -
  define host where "host = takeWhile is_host_char (drop 2 x)"
  define path where "path = dropWhile is_host_char (drop 2 x)"
  define ok where
    "ok \<longleftrightarrow> host \<noteq> [] \<and> (path = [] \<or> hd path = CHR ''/'') \<and> list_all is_path_char path"
  define out where "out = ''//'' @ host @ (if path = [] then ''/'' else path)"
  have unfold: "plain_rest sch x = (if prefix ''//'' x then (if ok then Some out else None) else None)"
    unfolding plain_rest_def Let_def host_def path_def ok_def out_def ..
  have "ok \<and> r = out"
    using assms unfolding unfold by (auto split: if_splits)
  then have host: "host \<noteq> []"
    and path: "path = [] \<or> hd path = CHR ''/''" "list_all is_path_char path"
    and r: "r = ''//'' @ host @ (if path = [] then ''/'' else path)"
    unfolding ok_def out_def by blast+
  have hc: "list_all is_host_char host"
    unfolding host_def by (simp add: list_all_iff) (meson set_takeWhileD)
  show ?thesis
  proof (cases path)
    case Nil
    with r have "r = ''//'' @ host @ CHR ''/'' # []" by simp
    moreover have "list_all is_path_char (CHR ''/'' # [])"
      by (simp add: is_path_char_def)
    ultimately show ?thesis using host hc by blast
  next
    case (Cons c cs)
    with path(1) have c: "c = CHR ''/''" by simp
    with r Cons have "r = ''//'' @ host @ CHR ''/'' # cs" by simp
    moreover have "list_all is_path_char (CHR ''/'' # cs)" using path(2) Cons c by simp
    ultimately show ?thesis using host hc by blast
  qed
qed

lemma plain_rest_fixpoint:
  assumes "host \<noteq> []" and "list_all is_host_char host"
    and "list_all is_path_char (CHR ''/'' # path)"
  shows "plain_rest sch (''//'' @ host @ CHR ''/'' # path) = Some (''//'' @ host @ CHR ''/'' # path)"
proof -
  have all: "\<forall>c \<in> set host. is_host_char c" using assms(2) by (simp add: list_all_iff)
  have tw: "takeWhile is_host_char (host @ CHR ''/'' # path) = host"
    using all slash_not_host by (simp add: takeWhile_append2 del: takeWhile_append)
  have dw: "dropWhile is_host_char (host @ CHR ''/'' # path) = CHR ''/'' # path"
    using all slash_not_host by (simp add: dropWhile_append2)
  have d2: "drop 2 (''//'' @ host @ CHR ''/'' # path) = host @ CHR ''/'' # path" by simp
  show ?thesis
    unfolding plain_rest_def Let_def d2 tw dw
    using assms by simp
qed

lemma plain_library_ok: "url_library_ok plain_rest plain_serialize"
  unfolding url_library_ok_def plain_serialize_def
proof (intro ballI allI impI)
  fix sch x r
  assume "plain_rest sch x = Some r"
  from plain_rest_shape [OF this] obtain host path
    where r: "r = ''//'' @ host @ CHR ''/'' # path" and h: "host \<noteq> []"
      and hc: "list_all is_host_char host" and pc: "list_all is_path_char (CHR ''/'' # path)"
    by blast
  have "plain_rest sch r = Some r" unfolding r using h hc pc by (rule plain_rest_fixpoint)
  moreover have "prefix ''//'' r" by (simp add: r)
  moreover have "\<forall>c \<in> set r. \<not> is_ws c \<and> \<not> is_c0_or_space c"
  proof
    fix c assume "c \<in> set r"
    then have "c = CHR ''/'' \<or> c \<in> set host \<or> c \<in> set (CHR ''/'' # path)"
      unfolding r by auto
    moreover have "is_path_char (CHR ''/'')" using pc by simp
    ultimately have "is_host_char c \<or> is_path_char c"
      using hc pc unfolding list_all_iff by blast
    then show "\<not> is_ws c \<and> \<not> is_c0_or_space c"
      using host_char_plain path_char_plain by blast
  qed
  ultimately show "plain_rest sch r = Some r \<and> prefix ''//'' r
      \<and> (\<forall>c \<in> set r. \<not> is_ws c \<and> \<not> is_c0_or_space c)"
    by blast
qed

text \<open>
  Claim C7. Normalization is idempotent: when \<^verbatim>\<open>normalizeUrl\<close> succeeds on an input,
  normalizing the string form of its result gives the same URL. The part of the platform's
  URL class that follows the scheme enters through \<open>url_library_ok\<close>: for \<^verbatim>\<open>http\<close> and
  \<^verbatim>\<open>https\<close> a serialized URL starts its authority with two slashes, holds neither white
  space nor control characters, and parses back to the same URL. The trimming, the literal
  scheme test and the scheme parsing of the second call are the model's own.
\<close>

theorem normalize_idempotent:
  assumes "url_library_ok P S" and "normalizeUrl P input = Inr u"
  shows "normalizeUrl P (href S u) = Inr u"
proof -
  obtain a b where u: "u = \<lparr>scheme = a, rest = b\<rparr>" by (cases u) auto
  from normalizeUrl_scheme [OF assms(2)] obtain x
    where sch: "a = ''http'' \<or> a = ''https''" and p: "P a x = Some b"
    by (auto simp: u split: if_splits)
  from reparse [OF assms(1) sch p] show ?thesis by (simp only: u)
qed

theorem normalize_idempotent_witness:
  "url_library_ok plain_rest plain_serialize
   \<and> normalizeUrl plain_rest ''  www.example.com/docs ''
       = Inr \<lparr>scheme = ''https'', rest = ''//www.example.com/docs''\<rparr>
   \<and> href plain_serialize \<lparr>scheme = ''https'', rest = ''//www.example.com/docs''\<rparr>
       = ''https://www.example.com/docs''
   \<and> normalizeUrl plain_rest ''https://www.example.com/docs''
       = Inr \<lparr>scheme = ''https'', rest = ''//www.example.com/docs''\<rparr>"
proof -
  have run: "normalizeUrl plain_rest ''  www.example.com/docs ''
       = Inr \<lparr>scheme = ''https'', rest = ''//www.example.com/docs''\<rparr>"
    by code_simp
  have h: "href plain_serialize \<lparr>scheme = ''https'', rest = ''//www.example.com/docs''\<rparr>
       = ''https://www.example.com/docs''"
    by (simp add: href_def plain_serialize_def)
  from normalize_idempotent [OF plain_library_ok run] run h plain_library_ok
  show ?thesis by simp
qed

end
